theory Spec2Isabelle
  imports Complex_Main "HOL-Library.Log_Nat"
begin

section \<open>JavaScript numbers\<close>

text \<open>
  Every numeric value of the service is a JavaScript \<open>number\<close>. Two views of it are used.

  Floors, the floor count and the dispatch scores are \<open>number\<close>: an integer or \<open>NaN\<close>.
  These are the values the controller hands to the service (\<open>parseInt\<close> gives an integer
  or \<open>NaN\<close>) and the values integer arithmetic makes of them; the integers stay far below
  \<open>2^53\<close>, so their arithmetic is exact. Comparisons with \<open>NaN\<close> are false, arithmetic
  with \<open>NaN\<close> gives \<open>NaN\<close>, and \<open>undefined\<close> behaves as \<open>NaN\<close> wherever the service
  uses a number.

  Times and the estimate are \<open>float64\<close>: \<open>NaN\<close>, an infinity, or a finite value; every
  product and sum is rounded to the nearest double, ties to even. The sign of zero is not
  kept.
\<close>

datatype number = NaN | Num int

definition lt :: "number \<Rightarrow> number \<Rightarrow> bool" where
  "lt a b = (case (a, b) of (Num x, Num y) \<Rightarrow> x < y | _ \<Rightarrow> False)"

definition gt :: "number \<Rightarrow> number \<Rightarrow> bool" where
  "gt a b = lt b a"

definition strictEq :: "number \<Rightarrow> number \<Rightarrow> bool" where
  "strictEq a b = (case (a, b) of (Num x, Num y) \<Rightarrow> x = y | _ \<Rightarrow> False)"

definition nplus :: "number \<Rightarrow> number \<Rightarrow> number" where
  "nplus a b = (case (a, b) of (Num x, Num y) \<Rightarrow> Num (x + y) | _ \<Rightarrow> NaN)"

definition nminus :: "number \<Rightarrow> number \<Rightarrow> number" where
  "nminus a b = (case (a, b) of (Num x, Num y) \<Rightarrow> Num (x - y) | _ \<Rightarrow> NaN)"

definition ntimes :: "number \<Rightarrow> number \<Rightarrow> number" where
  "ntimes a b = (case (a, b) of (Num x, Num y) \<Rightarrow> Num (x * y) | _ \<Rightarrow> NaN)"

definition nabs :: "number \<Rightarrow> number" where
  "nabs a = (case a of Num x \<Rightarrow> Num \<bar>x\<bar> | NaN \<Rightarrow> NaN)"

text \<open>\<open>!x\<close> for a floor that may be \<open>null\<close>: true for \<open>null\<close>, \<open>NaN\<close> and \<open>0\<close>.\<close>

definition falsy :: "number option \<Rightarrow> bool" where
  "falsy t \<longleftrightarrow> t = None \<or> t = Some NaN \<or> t = Some (Num 0)"

datatype float64 = FNaN | FInf bool | Fin rat

definition pow2 :: "int \<Rightarrow> rat" where
  "pow2 e = (if 0 \<le> e then 2 ^ nat e else 1 / 2 ^ nat (- e))"

text \<open>The binary exponent of a positive rational: \<open>2^e \<le> a < 2^(e+1)\<close>.\<close>

definition ilog2 :: "rat \<Rightarrow> int" where
  "ilog2 a = (if 1 \<le> a then bitlen \<lfloor>a\<rfloor> - 1 else - bitlen (\<lceil>1 / a\<rceil> - 1))"

definition roundEven :: "rat \<Rightarrow> int" where
  "roundEven x =
     (let n = \<lfloor>x\<rfloor>; r = x - of_int n
      in if r < 1 / 2 then n else if 1 / 2 < r then n + 1 else if even n then n else n + 1)"

text \<open>
  Rounding to the nearest double: 53 significant bits, exponents from \<open>-1022\<close> (below it
  the spacing stays \<open>2^-1074\<close>), overflow to an infinity from \<open>2^1024\<close> on.
\<close>

definition round64 :: "rat \<Rightarrow> float64" where
  "round64 x =
     (if x = 0 then Fin 0
      else let a = \<bar>x\<bar>;
               e = max (ilog2 a) (- 1022);
               q = pow2 (e - 52);
               m = of_int (roundEven (a / q)) * q
           in if pow2 1024 \<le> m then FInf (0 < x) else Fin (if 0 < x then m else - m))"

definition fmul :: "float64 \<Rightarrow> float64 \<Rightarrow> float64" where
  "fmul a b =
     (case (a, b) of
        (Fin x, Fin y) \<Rightarrow> round64 (x * y)
      | (FInf p, FInf q) \<Rightarrow> FInf (p = q)
      | (FInf p, Fin y) \<Rightarrow> (if y = 0 then FNaN else FInf (p = (0 < y)))
      | (Fin x, FInf q) \<Rightarrow> (if x = 0 then FNaN else FInf (q = (0 < x)))
      | _ \<Rightarrow> FNaN)"

definition fadd :: "float64 \<Rightarrow> float64 \<Rightarrow> float64" where
  "fadd a b =
     (case (a, b) of
        (Fin x, Fin y) \<Rightarrow> round64 (x + y)
      | (FInf p, FInf q) \<Rightarrow> (if p = q then FInf p else FNaN)
      | (FInf p, Fin y) \<Rightarrow> FInf p
      | (Fin x, FInf q) \<Rightarrow> FInf q
      | _ \<Rightarrow> FNaN)"

text \<open>A floor count as it enters the arithmetic of times.\<close>

definition toFloat :: "number \<Rightarrow> float64" where
  "toFloat a = (case a of NaN \<Rightarrow> FNaN | Num x \<Rightarrow> round64 (of_int x))"

section \<open>Data model (utils/types)\<close>

text \<open>
  The \<open>Elevator\<close> interface. \<open>state\<close> and \<open>direction\<close> are string unions in the
  source; \<open>direction\<close> and \<open>targetFloor\<close> may be \<open>null\<close> (the database columns are
  nullable and the fleet is initialised with \<open>null\<close> in both), hence the option types.
  \<open>currentFloor\<close> is an integer: its column is \<open>INTEGER NOT NULL\<close> and the service only
  ever adds or subtracts one; it enters comparisons with other numbers as \<open>Num\<close>.
  \<open>targetFloor\<close> is taken from the requests and may be \<open>NaN\<close>. The field \<open>id\<close> is \<open>eid\<close>
  here, and the fields of a log entry carry the prefix \<open>log\<close> where their names are those
  of other fields. The \<open>lastUpdated\<close> timestamp is left out: it is written from the wall
  clock and never read by the service. The optional broadcasts to the WebSocket service
  change no state of the service and are left out as well. The table keeps a row as it
  was written. (SQLite may hand a \<open>NaN\<close> it was given back as \<open>null\<close>; the service
  cannot tell the two apart, since it only tests a target for being falsy and for being
  equal to the current floor.)
\<close>

datatype ElevatorState = idle | moving_up | moving_down | doors_opening | doors_open | doors_closing

datatype Direction = up | down

record Elevator =
  eid :: string
  currentFloor :: int
  targetFloor :: "number option"
  state :: ElevatorState
  direction :: "Direction option"
  isMoving :: bool

record BuildingConfig =
  totalFloors :: number
  floorMoveTime :: float64
  doorOpenCloseTime :: float64

record ElevatorRequest =
  fromFloor :: number
  toFloor :: number
  requestedBy :: "string option"

text \<open>
  The \<open>details\<close> text of a log entry is a template string in the source; the constructors
  below are those templates with their holes as arguments.
\<close>

datatype Details =
    CalledFromTo number number string
  | MovedTo int
  | DoorsOpeningAt int
  | DoorsOpenAt int
  | DoorsClosingAt int
  | IdleAt int
  | StoppedAtInvalidFloorBoundary

record ElevatorLog =
  logElevatorId :: string
  event :: string
  logFromFloor :: number
  logToFloor :: number
  logState :: ElevatorState
  logDirection :: "Direction option"
  details :: Details

text \<open>
  What a call of the service can throw. \<open>InvalidFloor\<close> and \<open>SameFloor\<close> are the two
  \<open>throw new Error(...)\<close> of \<open>callElevator\<close>, the only errors the service constructs.
  \<open>TypeError\<close> is raised by the runtime, not by the service, when \<open>findBestElevator\<close>
  reads \<open>.elevator\<close> of \<open>scoredElevators[0]\<close> and the array is empty.
\<close>

datatype error =
    InvalidFloor number
  | SameFloor
  | TypeError

section \<open>The service state\<close>

text \<open>
  \<open>elevators\<close>, \<open>elevator_logs\<close> and \<open>query_logs\<close> are the three tables of
  \<open>DatabaseManager\<close> (of a query log only the \<open>source\<close> column is kept); \<open>config\<close>,
  \<open>floorQueues\<close> and \<open>activeMovements\<close> are the fields of \<open>ElevatorService\<close>.

  \<open>chains\<close> is what the event loop holds for a unit: the invocations of \<open>moveElevator\<close>
  that are waiting on a timer. An invocation waits either to start (\<open>Due\<close>: it was started
  by \<open>startElevatorMovement\<close> or put on a timer by \<open>setTimeout\<close>), or inside
  \<open>handleArrival\<close>, after the write of one of the three door phases, holding the elevator
  object it read when it started. Nothing limits a unit to one such invocation.

  \<open>persisted\<close> is bookkeeping that the source does not hold as data: every row handed to
  \<open>updateElevator\<close>, each with the unit's stop queue at that moment.
\<close>

datatype Chain = Due | DoorsOpening Elevator | DoorsOpen Elevator | DoorsClosing Elevator

record System =
  elevators :: "Elevator list"
  elevator_logs :: "ElevatorLog list"
  query_logs :: "string list"
  config :: BuildingConfig
  floorQueues :: "string \<Rightarrow> number list option"
  activeMovements :: "string set"
  chains :: "string \<Rightarrow> Chain list"
  persisted :: "(Elevator \<times> number list) list"

definition queueOf :: "System \<Rightarrow> string \<Rightarrow> number list" where
  "queueOf s i = (case floorQueues s i of None \<Rightarrow> [] | Some q \<Rightarrow> q)"

subsection \<open>DatabaseManager\<close>

definition logQuery :: "string \<Rightarrow> System \<Rightarrow> System" where
  "logQuery src s = s\<lparr>query_logs := query_logs s @ [src]\<rparr>"

definition getAllElevators :: "System \<Rightarrow> Elevator list \<times> System" where
  "getAllElevators s = (elevators s, logQuery ''getAllElevators'' s)"

definition getElevator :: "string \<Rightarrow> System \<Rightarrow> Elevator option \<times> System" where
  "getElevator i s = (find (\<lambda>r. eid r = i) (elevators s), logQuery ''getElevator'' s)"

definition updateElevator :: "Elevator \<Rightarrow> System \<Rightarrow> System" where
  "updateElevator e s =
     (let s1 = logQuery ''updateElevator'' s
      in s1\<lparr>elevators := map (\<lambda>r. if eid r = eid e then e else r) (elevators s1),
             persisted := persisted s1 @ [(e, queueOf s1 (eid e))]\<rparr>)"

definition logElevatorEvent :: "ElevatorLog \<Rightarrow> System \<Rightarrow> System" where
  "logElevatorEvent l s = s\<lparr>elevator_logs := elevator_logs s @ [l]\<rparr>"

definition defaultElevators :: "Elevator list" where
  "defaultElevators =
     map (\<lambda>i. \<lparr>eid = i, currentFloor = 1, targetFloor = None, state = idle,
               direction = None, isMoving = False\<rparr>)
         [''elevator-1'', ''elevator-2'', ''elevator-3'', ''elevator-4'', ''elevator-5'']"

definition initialSystem :: "BuildingConfig \<Rightarrow> Elevator list \<Rightarrow> System" where
  "initialSystem cfg rows =
     \<lparr>elevators = rows, elevator_logs = [], query_logs = [], config = cfg,
      floorQueues = (\<lambda>_. None), activeMovements = {}, chains = (\<lambda>_. []), persisted = []\<rparr>"

section \<open>Dispatch: the queue-based ElevatorService\<close>

text \<open>
  \<open>Array.prototype.sort\<close> with a comparator is stable and treats a comparator result of
  \<open>NaN\<close> as \<open>0\<close>. The comparators of the service are consistent (the scores of a call are
  all integers or all \<open>NaN\<close>), so the result is that of a stable insertion sort: an
  element goes before the first one it is not greater than.
\<close>

fun insertBy :: "('a \<Rightarrow> 'a \<Rightarrow> number) \<Rightarrow> 'a \<Rightarrow> 'a list \<Rightarrow> 'a list" where
  "insertBy cmp x [] = [x]"
| "insertBy cmp x (y # ys) = (if gt (cmp x y) (Num 0) then y # insertBy cmp x ys else x # y # ys)"

definition sortBy :: "('a \<Rightarrow> 'a \<Rightarrow> number) \<Rightarrow> 'a list \<Rightarrow> 'a list" where
  "sortBy cmp xs = foldr (insertBy cmp) xs []"

definition isMovingTowards :: "Elevator \<Rightarrow> number \<Rightarrow> bool" where
  "isMovingTowards elevator fromFl \<longleftrightarrow>
     (direction elevator = Some up \<and> gt fromFl (Num (currentFloor elevator))) \<or>
     (direction elevator = Some down \<and> lt fromFl (Num (currentFloor elevator)))"

definition score :: "Elevator \<Rightarrow> number \<Rightarrow> number" where
  "score elevator fromFl =
     (let distance = nabs (nminus (Num (currentFloor elevator)) fromFl);
          score1 = nplus (Num 0) (ntimes distance (Num 10));
          score2 = (if state elevator = idle then nminus score1 (Num 50) else score1);
          score3 = (if isMoving elevator \<and> direction elevator \<noteq> None
                    then (if isMovingTowards elevator fromFl then nminus score2 (Num 20)
                          else nplus score2 (Num 30))
                    else score2)
      in score3)"

definition findBestElevator ::
  "number \<Rightarrow> number \<Rightarrow> System \<Rightarrow> (error + Elevator) \<times> System" where
  "findBestElevator fromFl toFl s =
     (let (elevs, s1) = getAllElevators s;
          scoredElevators = map (\<lambda>elevator. (elevator, score elevator fromFl)) elevs
      in case sortBy (\<lambda>a b. nminus (snd a) (snd b)) scoredElevators of
           [] \<Rightarrow> (Inl TypeError, s1)
         | best # _ \<Rightarrow> (Inr (fst best), s1))"

definition calculateEstimatedTime ::
  "BuildingConfig \<Rightarrow> Elevator \<Rightarrow> number \<Rightarrow> number \<Rightarrow> float64" where
  "calculateEstimatedTime cfg elevator fromFl toFl =
     (let floorsToMove = nplus (nabs (nminus (Num (currentFloor elevator)) fromFl))
                               (nabs (nminus fromFl toFl));
          timeToMove = fmul (toFloat floorsToMove) (floorMoveTime cfg);
          doorTime = fmul (doorOpenCloseTime cfg) (Fin 2)
      in fadd timeToMove doorTime)"

section \<open>Dispatch: src/services/ElevatorService.ts\<close>

definition isMovingTowards_base :: "Elevator \<Rightarrow> number \<Rightarrow> bool" where
  "isMovingTowards_base elevator fromFl \<longleftrightarrow>
     (direction elevator = Some up \<and> gt fromFl (Num (currentFloor elevator))) \<or>
     (direction elevator = Some down \<and> lt fromFl (Num (currentFloor elevator)))"

definition score_base :: "Elevator \<Rightarrow> number \<Rightarrow> number" where
  "score_base elevator fromFl =
     (let distance = nabs (nminus (Num (currentFloor elevator)) fromFl);
          score1 = nplus (Num 0) (ntimes distance (Num 10));
          score2 = (if state elevator = idle then nminus score1 (Num 50) else score1);
          score3 = (if isMoving elevator \<and> direction elevator \<noteq> None
                    then (if isMovingTowards_base elevator fromFl then nminus score2 (Num 20)
                          else nplus score2 (Num 30))
                    else score2)
      in score3)"

definition findBestElevator_base ::
  "number \<Rightarrow> number \<Rightarrow> System \<Rightarrow> (error + Elevator) \<times> System" where
  "findBestElevator_base fromFl toFl s =
     (let (elevs, s1) = getAllElevators s;
          scoredElevators = map (\<lambda>elevator. (elevator, score_base elevator fromFl)) elevs
      in case sortBy (\<lambda>a b. nminus (snd a) (snd b)) scoredElevators of
           [] \<Rightarrow> (Inl TypeError, s1)
         | best # _ \<Rightarrow> (Inr (fst best), s1))"

definition calculateEstimatedTime_base ::
  "BuildingConfig \<Rightarrow> Elevator \<Rightarrow> number \<Rightarrow> number \<Rightarrow> float64" where
  "calculateEstimatedTime_base cfg elevator fromFl toFl =
     (let floorsToMove = nplus (nabs (nminus (Num (currentFloor elevator)) fromFl))
                               (nabs (nminus fromFl toFl));
          timeToMove = fmul (toFloat floorsToMove) (floorMoveTime cfg);
          doorTime = fmul (doorOpenCloseTime cfg) (Fin 2)
      in fadd timeToMove doorTime)"

section \<open>Call acceptance and the movement engine\<close>

text \<open>
  \<open>startElevatorMovement\<close> returns at once when the unit has a timer handle; otherwise it
  invokes \<open>moveElevator\<close>, whose body runs after its first \<open>await\<close>: one more invocation
  is due.
\<close>

definition startElevatorMovement :: "string \<Rightarrow> System \<Rightarrow> System" where
  "startElevatorMovement elevatorId s =
     (if elevatorId \<in> activeMovements s then s
      else s\<lparr>chains := (chains s)(elevatorId := chains s elevatorId @ [Due])\<rparr>)"

definition callElevator ::
  "ElevatorRequest \<Rightarrow> System \<Rightarrow> (error + string \<times> float64) \<times> System" where
  "callElevator request s =
     (let fromFl = fromFloor request; toFl = toFloor request;
          by = (case requestedBy request of None \<Rightarrow> ''anonymous'' | Some u \<Rightarrow> u);
          floors = totalFloors (config s)
      in if lt fromFl (Num 1) \<or> gt fromFl floors \<or> lt toFl (Num 1) \<or> gt toFl floors
         then (Inl (InvalidFloor floors), s)
         else if strictEq fromFl toFl then (Inl SameFloor, s)
         else case findBestElevator fromFl toFl s of
           (Inl err, s1) \<Rightarrow> (Inl err, s1)
         | (Inr bestElevator, s1) \<Rightarrow>
             let queue0 = queueOf s1 (eid bestElevator);
                 queue1 = (if \<not> strictEq (Num (currentFloor bestElevator)) fromFl
                           then queue0 @ [fromFl] else queue0);
                 queue = queue1 @ [toFl];
                 s2 = s1\<lparr>floorQueues := (floorQueues s1)(eid bestElevator \<mapsto> queue)\<rparr>;
                 target = hd queue;
                 best1 = bestElevator\<lparr>targetFloor := Some target,
                           direction := Some (if lt (Num (currentFloor bestElevator)) target
                                              then up else down)\<rparr>;
                 s3 = updateElevator best1 s2;
                 s4 = logElevatorEvent
                        \<lparr>logElevatorId = eid best1, event = ''elevator_called'',
                         logFromFloor = fromFl, logToFloor = toFl, logState = state best1,
                         logDirection = direction best1, details = CalledFromTo fromFl toFl by\<rparr> s3;
                 s5 = (if \<not> isMoving best1 then startElevatorMovement (eid best1) s4 else s4)
             in (Inr (eid best1, calculateEstimatedTime (config s5) best1 fromFl toFl), s5))"

text \<open>
  \<open>handleArrival\<close> mutates the elevator object it is given and writes it four times, with
  a timer wait after each of the first three writes. \<open>doorPhase\<close> is one of the first
  three parts, \<open>resetToIdle\<close> the fourth; both return the mutated object. \<open>handleArrival\<close>
  itself is the four parts in a row, as they run when nothing else comes in between.
\<close>

definition doorPhase ::
  "ElevatorState \<Rightarrow> string \<Rightarrow> (int \<Rightarrow> Details) \<Rightarrow> Elevator \<Rightarrow> System \<Rightarrow> Elevator \<times> System" where
  "doorPhase st ev det elevator s =
     (let elevator1 = elevator\<lparr>state := st\<rparr>;
          s1 = updateElevator elevator1 s;
          s2 = logElevatorEvent
                 \<lparr>logElevatorId = eid elevator1, event = ev,
                  logFromFloor = Num (currentFloor elevator1),
                  logToFloor = Num (currentFloor elevator1),
                  logState = state elevator1, logDirection = direction elevator1,
                  details = det (currentFloor elevator1)\<rparr> s1
      in (elevator1, s2))"

definition resetToIdle :: "Elevator \<Rightarrow> System \<Rightarrow> Elevator \<times> System" where
  "resetToIdle elevator s =
     (let e4 = elevator\<lparr>state := idle, targetFloor := Some (Num 0), direction := None,
                        isMoving := False\<rparr>;
          s4 = updateElevator e4 s;
          s5 = logElevatorEvent
                 \<lparr>logElevatorId = eid e4, event = ''elevator_idle'',
                  logFromFloor = Num (currentFloor e4), logToFloor = Num (currentFloor e4),
                  logState = state e4, logDirection = direction e4,
                  details = IdleAt (currentFloor e4)\<rparr> s4
      in (e4, s5))"

definition handleArrival :: "Elevator \<Rightarrow> System \<Rightarrow> Elevator \<times> System" where
  "handleArrival elevator s =
     (let (e1, s1) = doorPhase doors_opening ''doors_opening'' DoorsOpeningAt elevator s;
          (e2, s2) = doorPhase doors_open ''doors_open'' DoorsOpenAt e1 s1;
          (e3, s3) = doorPhase doors_closing ''doors_closing'' DoorsClosingAt e2 s2
      in resetToIdle e3 s3)"

text \<open>
  \<open>moveElevator\<close>, from its start to its first timer wait or to its end. It stops for a
  missing row and for a \<open>targetFloor\<close> that is \<open>null\<close>, \<open>0\<close> or \<open>NaN\<close>. At the target it
  enters \<open>handleArrival\<close> and waits after the first door write. Otherwise it moves one
  floor, or fails the boundary check against the floor count of that moment;
  \<open>setTimeout(moveElevator, ...)\<close> leaves one more invocation due.
\<close>

definition moveElevator :: "string \<Rightarrow> System \<Rightarrow> System" where
  "moveElevator elevatorId s =
     (let (found, s1) = getElevator elevatorId s
      in case found of
           None \<Rightarrow> s1\<lparr>activeMovements := activeMovements s1 - {elevatorId}\<rparr>
         | Some elevator \<Rightarrow>
             if falsy (targetFloor elevator)
             then s1\<lparr>activeMovements := activeMovements s1 - {elevatorId}\<rparr>
             else if targetFloor elevator = Some (Num (currentFloor elevator))
             then
               let (e1, s2) = doorPhase doors_opening ''doors_opening'' DoorsOpeningAt elevator s1
               in s2\<lparr>chains := (chains s2)(elevatorId := chains s2 elevatorId @ [DoorsOpening e1])\<rparr>
             else
               let newFloor = (if direction elevator = Some up then currentFloor elevator + 1
                               else currentFloor elevator - 1)
               in if lt (Num newFloor) (Num 1) \<or> gt (Num newFloor) (totalFloors (config s1))
                  then
                    let stopped = elevator\<lparr>state := idle, isMoving := False,
                                    direction := None, targetFloor := Some (Num 1)\<rparr>;
                        s2 = updateElevator stopped s1;
                        s3 = s2\<lparr>activeMovements := activeMovements s2 - {elevatorId}\<rparr>
                    in logElevatorEvent
                         \<lparr>logElevatorId = eid stopped, event = ''elevator_idle'',
                          logFromFloor = Num (currentFloor stopped),
                          logToFloor = Num (currentFloor stopped),
                          logState = state stopped, logDirection = direction stopped,
                          details = StoppedAtInvalidFloorBoundary\<rparr> s3
                  else
                    let moved = elevator\<lparr>currentFloor := newFloor,
                                  state := (if direction elevator = Some up then moving_up
                                            else moving_down),
                                  isMoving := True\<rparr>;
                        s2 = updateElevator moved s1;
                        s3 = logElevatorEvent
                               \<lparr>logElevatorId = eid moved, event = ''floor_reached'',
                                logFromFloor = Num (if direction moved = Some up then newFloor - 1
                                                    else newFloor + 1),
                                logToFloor = Num newFloor, logState = state moved,
                                logDirection = direction moved, details = MovedTo newFloor\<rparr> s2
                    in s3\<lparr>activeMovements := insert elevatorId (activeMovements s3),
                           chains := (chains s3)(elevatorId := chains s3 elevatorId @ [Due])\<rparr>)"

text \<open>
  What \<open>moveElevator\<close> does once \<open>handleArrival\<close> has returned the elevator object:
  \<open>queue.shift()\<close> acts on the stored array, or on a fresh empty one when the unit has no
  queue; with a stop left the next one is promoted and \<open>startElevatorMovement\<close> called.
\<close>

definition continueQueue :: "string \<Rightarrow> Elevator \<Rightarrow> System \<Rightarrow> System" where
  "continueQueue elevatorId arrived s2 =
     (let queue = tl (queueOf s2 elevatorId);
          s3 = (case floorQueues s2 elevatorId of
                  None \<Rightarrow> s2
                | Some _ \<Rightarrow> s2\<lparr>floorQueues := (floorQueues s2)(elevatorId \<mapsto> queue)\<rparr>)
      in if length queue > 0
         then
           let target = hd queue;
               next = arrived\<lparr>targetFloor := Some target,
                        direction := Some (if lt (Num (currentFloor arrived)) target
                                           then up else down),
                        state := idle, isMoving := False\<rparr>;
               s4 = updateElevator next s3;
               s5 = s4\<lparr>activeMovements := activeMovements s4 - {elevatorId}\<rparr>
           in startElevatorMovement elevatorId s5
         else s3\<lparr>activeMovements := activeMovements s3 - {elevatorId}\<rparr>)"

text \<open>An invocation goes on after a timer wait: the next part of the door cycle.\<close>

definition resume :: "Chain \<Rightarrow> string \<Rightarrow> System \<Rightarrow> System" where
  "resume c elevatorId s =
     (case c of
        Due \<Rightarrow> moveElevator elevatorId s
      | DoorsOpening e1 \<Rightarrow>
          let (e2, s1) = doorPhase doors_open ''doors_open'' DoorsOpenAt e1 s
          in s1\<lparr>chains := (chains s1)(elevatorId := chains s1 elevatorId @ [DoorsOpen e2])\<rparr>
      | DoorsOpen e2 \<Rightarrow>
          let (e3, s1) = doorPhase doors_closing ''doors_closing'' DoorsClosingAt e2 s
          in s1\<lparr>chains := (chains s1)(elevatorId := chains s1 elevatorId @ [DoorsClosing e3])\<rparr>
      | DoorsClosing e3 \<Rightarrow>
          let (e4, s1) = resetToIdle e3 s
          in continueQueue elevatorId e4 s1)"

definition updateBuildingConfig ::
  "number option \<Rightarrow> float64 option \<Rightarrow> float64 option \<Rightarrow> System \<Rightarrow> System" where
  "updateBuildingConfig floors moveTime doorTime s =
     s\<lparr>config :=
         \<lparr>totalFloors = (case floors of None \<Rightarrow> totalFloors (config s) | Some v \<Rightarrow> v),
          floorMoveTime = (case moveTime of None \<Rightarrow> floorMoveTime (config s) | Some v \<Rightarrow> v),
          doorOpenCloseTime =
            (case doorTime of None \<Rightarrow> doorOpenCloseTime (config s) | Some v \<Rightarrow> v)\<rparr>\<rparr>"

text \<open>
  Runs of the service. A step is a call, a change of the configuration, or a timer that
  fires: \<open>Tick i k\<close> lets the \<open>k\<close>-th waiting invocation of unit \<open>i\<close> go on until its next
  timer wait (an invocation that is due starts). Steps come in any order, so calls,
  configuration changes and the invocations of one or several units interleave at every
  timer wait, and an invocation started by a call may begin any time after the call. What
  a step does between two timer waits is taken as a whole: its database calls complete,
  in the order they are issued, before the next call comes in or the next timer fires.
  \<open>updateBuildingConfig\<close> replaces the fields that its argument has (a field that is
  \<open>undefined\<close> counts as \<open>NaN\<close>) and checks nothing. \<open>stopAllMovements\<close> is not a
  step of a run.
\<close>

datatype Step =
    Call ElevatorRequest
  | Tick string nat
  | Configure "number option" "float64 option" "float64 option"

definition step :: "Step \<Rightarrow> System \<Rightarrow> System" where
  "step st s =
     (case st of
        Call request \<Rightarrow> snd (callElevator request s)
      | Tick elevatorId k \<Rightarrow>
          (if k < length (chains s elevatorId)
           then resume (chains s elevatorId ! k) elevatorId
                  (s\<lparr>chains := (chains s)(elevatorId :=
                        take k (chains s elevatorId) @ drop (Suc k) (chains s elevatorId))\<rparr>)
           else s)
      | Configure floors moveTime doorTime \<Rightarrow> updateBuildingConfig floors moveTime doorTime s)"

definition execute :: "Step list \<Rightarrow> System \<Rightarrow> System" where
  "execute steps s = fold step steps s"

section \<open>Notions used in the statements\<close>

subsection \<open>Selection\<close>

text \<open>
  The first element of \<open>x # xs\<close> whose key is minimal.
\<close>

fun firstMin :: "('a \<Rightarrow> int) \<Rightarrow> 'a \<Rightarrow> 'a list \<Rightarrow> 'a" where
  "firstMin f x [] = x"
| "firstMin f x (y # ys) = (if f x \<le> f (firstMin f y ys) then x else firstMin f y ys)"

text \<open>The score of a unit for an integer pickup floor, as an integer.\<close>

definition points :: "int \<Rightarrow> Elevator \<Rightarrow> int" where
  "points k e =
     10 * \<bar>currentFloor e - k\<bar>
     - (if state e = idle then 50 else 0)
     + (if isMoving e \<and> direction e \<noteq> None
        then (if (direction e = Some up \<and> k > currentFloor e) \<or>
                 (direction e = Some down \<and> k < currentFloor e) then - 20 else 30)
        else 0)"

subsection \<open>Rows and log entries written by the service\<close>

text \<open>
  Names for the values that \<open>callElevator\<close> and \<open>moveElevator\<close> write: the row after a
  call, after a movement step, after the boundary check fails, at the end of a door cycle
  and after the next stop is promoted, with the log entries that go with them.
  \<open>replaceRow\<close> is the effect of the SQL \<open>UPDATE ... WHERE id = ?\<close> on the table.
  A request \<open>passes\<close> when neither check of \<open>callElevator\<close> throws; it is a
  \<open>validRequest\<close> when its floors are two different integers inside the building.
\<close>

definition replaceRow :: "Elevator \<Rightarrow> Elevator list \<Rightarrow> Elevator list" where
  "replaceRow e rows = map (\<lambda>r. if eid r = eid e then e else r) rows"

definition passes :: "BuildingConfig \<Rightarrow> ElevatorRequest \<Rightarrow> bool" where
  "passes cfg req \<longleftrightarrow>
     \<not> (lt (fromFloor req) (Num 1) \<or> gt (fromFloor req) (totalFloors cfg) \<or>
        lt (toFloor req) (Num 1) \<or> gt (toFloor req) (totalFloors cfg)) \<and>
     \<not> strictEq (fromFloor req) (toFloor req)"

definition inBuilding :: "int \<Rightarrow> int \<Rightarrow> bool" where
  "inBuilding T f \<longleftrightarrow> 1 \<le> f \<and> f \<le> T"

definition validRequest :: "int \<Rightarrow> ElevatorRequest \<Rightarrow> bool" where
  "validRequest T req \<longleftrightarrow>
     (case (fromFloor req, toFloor req) of
        (Num a, Num b) \<Rightarrow> inBuilding T a \<and> inBuilding T b \<and> a \<noteq> b
      | _ \<Rightarrow> False)"

definition legOf :: "int \<Rightarrow> ElevatorRequest \<Rightarrow> number list" where
  "legOf c req =
     (if \<not> strictEq (Num c) (fromFloor req) then [fromFloor req] else []) @ [toFloor req]"

definition calledQueue :: "System \<Rightarrow> Elevator \<Rightarrow> ElevatorRequest \<Rightarrow> number list" where
  "calledQueue s e req = queueOf s (eid e) @ legOf (currentFloor e) req"

definition calledRow :: "Elevator \<Rightarrow> number \<Rightarrow> Elevator" where
  "calledRow e t =
     e\<lparr>targetFloor := Some t,
       direction := Some (if lt (Num (currentFloor e)) t then up else down)\<rparr>"

definition calledLog :: "Elevator \<Rightarrow> ElevatorRequest \<Rightarrow> ElevatorLog" where
  "calledLog e req =
     \<lparr>logElevatorId = eid e, event = ''elevator_called'',
      logFromFloor = fromFloor req, logToFloor = toFloor req, logState = state e,
      logDirection = direction e,
      details = CalledFromTo (fromFloor req) (toFloor req)
                  (case requestedBy req of None \<Rightarrow> ''anonymous'' | Some u \<Rightarrow> u)\<rparr>"

definition movedRow :: "Elevator \<Rightarrow> Elevator" where
  "movedRow e =
     e\<lparr>currentFloor := (if direction e = Some up then currentFloor e + 1 else currentFloor e - 1),
       state := (if direction e = Some up then moving_up else moving_down),
       isMoving := True\<rparr>"

definition movedLog :: "Elevator \<Rightarrow> ElevatorLog" where
  "movedLog m =
     \<lparr>logElevatorId = eid m, event = ''floor_reached'',
      logFromFloor = Num (if direction m = Some up then currentFloor m - 1 else currentFloor m + 1),
      logToFloor = Num (currentFloor m), logState = state m, logDirection = direction m,
      details = MovedTo (currentFloor m)\<rparr>"

definition stoppedRow :: "Elevator \<Rightarrow> Elevator" where
  "stoppedRow e =
     e\<lparr>state := idle, isMoving := False, direction := None, targetFloor := Some (Num 1)\<rparr>"


definition doorLog :: "string \<Rightarrow> (int \<Rightarrow> Details) \<Rightarrow> Elevator \<Rightarrow> ElevatorLog" where
  "doorLog ev det e =
     \<lparr>logElevatorId = eid e, event = ev, logFromFloor = Num (currentFloor e),
      logToFloor = Num (currentFloor e), logState = state e, logDirection = direction e,
      details = det (currentFloor e)\<rparr>"

definition settled :: "Elevator \<Rightarrow> Elevator" where
  "settled e =
     e\<lparr>state := idle, targetFloor := Some (Num 0), direction := None, isMoving := False\<rparr>"

definition promotedRow :: "Elevator \<Rightarrow> number \<Rightarrow> Elevator" where
  "promotedRow e t =
     e\<lparr>targetFloor := Some t,
       direction := Some (if lt (Num (currentFloor e)) t then up else down),
       state := idle, isMoving := False\<rparr>"

text \<open>The invocations of a unit that are left when the \<open>k\<close>-th one goes on.\<close>

definition others :: "System \<Rightarrow> string \<Rightarrow> nat \<Rightarrow> Chain list" where
  "others s i k = take k (chains s i) @ drop (Suc k) (chains s i)"

subsection \<open>Invariants of runs\<close>

text \<open>
  \<open>fresh\<close> describes the rows a run starts from: idle units inside the building, as
  \<open>initializeDefaultElevators\<close> creates them. \<open>flagFollowsState\<close> relates the
  \<open>isMoving\<close> flag of a row to its state.
\<close>

definition flagFollowsState :: "Elevator \<Rightarrow> bool" where
  "flagFollowsState e \<longleftrightarrow>
     (state e = moving_up \<or> state e = moving_down \<longrightarrow> isMoving e) \<and>
     (state e = idle \<longrightarrow> \<not> isMoving e)"

definition fresh :: "BuildingConfig \<Rightarrow> Elevator \<Rightarrow> bool" where
  "fresh cfg e \<longleftrightarrow>
     state e = idle \<and> \<not> isMoving e \<and> direction e = None \<and> falsy (targetFloor e) \<and>
     (case totalFloors cfg of NaN \<Rightarrow> False | Num T \<Rightarrow> inBuilding T (currentFloor e))"

definition flagsOK :: "System \<Rightarrow> bool" where
  "flagsOK s \<longleftrightarrow>
     (\<forall>r \<in> set (elevators s). flagFollowsState r) \<and>
     (\<forall>p \<in> set (persisted s). flagFollowsState (fst p))"


definition rowOK :: "int \<Rightarrow> Elevator \<Rightarrow> bool" where
  "rowOK T e \<longleftrightarrow>
     inBuilding T (currentFloor e) \<and>
     (case targetFloor e of
        Some (Num t) \<Rightarrow> t = 0 \<or>
          (inBuilding T t \<and>
           (currentFloor e < t \<longrightarrow> direction e = Some up) \<and>
           (t < currentFloor e \<longrightarrow> direction e = Some down))
      | _ \<Rightarrow> True)"

definition carried :: "Chain \<Rightarrow> Elevator option" where
  "carried c =
     (case c of Due \<Rightarrow> None | DoorsOpening e \<Rightarrow> Some e | DoorsOpen e \<Rightarrow> Some e
      | DoorsClosing e \<Rightarrow> Some e)"


definition noAnomaly :: "ElevatorLog \<Rightarrow> bool" where
  "noAnomaly l \<longleftrightarrow> details l \<noteq> StoppedAtInvalidFloorBoundary"


text \<open>A step that leaves the floor count as it is.\<close>

definition keepsFloors :: "Step \<Rightarrow> bool" where
  "keepsFloors st = (case st of Configure (Some v) m d \<Rightarrow> False | _ \<Rightarrow> True)"




definition doorAt :: "System \<Rightarrow> string \<Rightarrow> Chain \<Rightarrow> bool" where
  "doorAt s i c =
     (case carried c of
        None \<Rightarrow> True
      | Some e \<Rightarrow> queueOf s i \<noteq> [] \<and> hd (queueOf s i) = Num (currentFloor e) \<and>
                  targetFloor e = Some (Num (currentFloor e)))"


definition oneChain :: "System \<Rightarrow> bool" where
  "oneChain s \<longleftrightarrow> list_all (\<lambda>r. length (chains s (eid r)) \<le> 1) (elevators s)"

definition integerFloors :: "Step \<Rightarrow> bool" where
  "integerFloors st =
     (case st of Call req \<Rightarrow> fromFloor req \<noteq> NaN \<and> toFloor req \<noteq> NaN | _ \<Rightarrow> True)"

fun tidy :: "Step list \<Rightarrow> System \<Rightarrow> bool" where
  "tidy [] s = True"
| "tidy (st # sts) s =
     (oneChain s \<and> keepsFloors st \<and> integerFloors st \<and> tidy sts (step st s))"

subsection \<open>Journeys\<close>

text \<open>
  \<open>stopsServed\<close> lists the floors at which a unit started a door cycle, in log order.
  \<open>ticksFor c q\<close> is the number of timers that fire while one invocation serves the
  queue \<open>q\<close> from floor \<open>c\<close>: one per floor travelled and four per stop. \<open>enRoute\<close>
  holds of a unit at floor \<open>c\<close> with the queue \<open>q\<close> of floors inside the building that
  heads for the head of \<open>q\<close> and has exactly one invocation waiting, which is due;
  \<open>atRest\<close> of a unit that is idle at a floor with an empty queue and no invocation.
\<close>

definition stopsServed :: "System \<Rightarrow> string \<Rightarrow> number list" where
  "stopsServed s i =
     map logToFloor
       (filter (\<lambda>l. logElevatorId l = i \<and> event l = ''doors_opening'') (elevator_logs s))"





subsection \<open>Concrete configurations, units and runs\<close>

text \<open>
  \<open>unitIs\<close> describes a fleet of one unit: its row, its queue, its waiting invocations
  and whether it has a timer handle. The configuration and the idle units are those of
  the service's tests; \<open>tenthsCfg\<close> has the times \<open>0.1\<close> and \<open>0.2\<close>, as doubles;
  \<open>nanCall\<close> is the request the controller makes of a pickup floor that is not a
  number. \<open>arrival\<close> is the run that calls a unit from floor 1 to floor 2
  and lets it move and arrive; \<open>shortTrip\<close> goes on to the end of the door cycle.
\<close>

definition unitIs :: "System \<Rightarrow> Elevator \<Rightarrow> number list \<Rightarrow> Chain list \<Rightarrow> bool \<Rightarrow> bool" where
  "unitIs s r q cs a \<longleftrightarrow>
     elevators s = [r] \<and> queueOf s (eid r) = q \<and> chains s (eid r) = cs \<and>
     (eid r \<in> activeMovements s) = a"

definition cfgTest :: BuildingConfig where
  "cfgTest = \<lparr>totalFloors = Num 10, floorMoveTime = Fin 1, doorOpenCloseTime = Fin (1 / 2)\<rparr>"

definition idleUnit :: "string \<Rightarrow> int \<Rightarrow> Elevator" where
  "idleUnit i f = \<lparr>eid = i, currentFloor = f, targetFloor = Some (Num 0), state = idle,
                   direction = None, isMoving = False\<rparr>"

definition requestOf :: "int \<Rightarrow> int \<Rightarrow> ElevatorRequest" where
  "requestOf a b = \<lparr>fromFloor = Num a, toFloor = Num b, requestedBy = None\<rparr>"

definition nanCall :: ElevatorRequest where
  "nanCall = \<lparr>fromFloor = NaN, toFloor = Num 5, requestedBy = None\<rparr>"

definition tenthsCfg :: BuildingConfig where
  "tenthsCfg = \<lparr>totalFloors = Num 10, floorMoveTime = round64 (1 / 10),
                 doorOpenCloseTime = round64 (1 / 5)\<rparr>"

definition oneUnit :: System where
  "oneUnit = initialSystem cfgTest [idleUnit ''elevator-1'' 1]"

definition arrival :: "Step list" where
  "arrival = [Call (requestOf 1 2), Tick ''elevator-1'' 0, Tick ''elevator-1'' 0]"

definition shortTrip :: "Step list" where
  "shortTrip = arrival @ replicate 3 (Tick ''elevator-1'' 0)"

definition afterMove :: System where
  "afterMove = execute [Call (requestOf 1 2), Tick ''elevator-1'' 0] oneUnit"

definition calledUnit :: Elevator where
  "calledUnit = \<lparr>eid = ''elevator-1'', currentFloor = 1, targetFloor = Some (Num 2),
                  state = idle, direction = Some up, isMoving = False\<rparr>"

definition arrivedUnit :: Elevator where
  "arrivedUnit = \<lparr>eid = ''elevator-1'', currentFloor = 2, targetFloor = Some (Num 2),
                   state = moving_up, direction = Some up, isMoving = True\<rparr>"

definition doorUnit :: Elevator where
  "doorUnit = \<lparr>eid = ''elevator-1'', currentFloor = 2, targetFloor = Some (Num 2),
                state = doors_opening, direction = Some up, isMoving = True\<rparr>"

definition servedUnit :: Elevator where
  "servedUnit = \<lparr>eid = ''elevator-1'', currentFloor = 2, targetFloor = Some (Num 0),
                  state = idle, direction = None, isMoving = False\<rparr>"







section \<open>Numbers\<close>

lemma lt_simps [simp]:
  "lt (Num a) (Num b) \<longleftrightarrow> a < b" "lt NaN x = False" "lt x NaN = False"
  by (simp_all add: lt_def split: number.splits)


lemma gt_simps [simp]:
  "gt (Num a) (Num b) \<longleftrightarrow> b < a" "gt NaN x = False" "gt x NaN = False"
  by (simp_all add: gt_def)

lemma strictEq_simps [simp]:
  "strictEq (Num a) (Num b) \<longleftrightarrow> a = b" "strictEq NaN x = False" "strictEq x NaN = False"
  by (simp_all add: strictEq_def split: number.splits)

lemma nplus_simps [simp]:
  "nplus (Num a) (Num b) = Num (a + b)" "nplus NaN x = NaN" "nplus x NaN = NaN"
  by (simp_all add: nplus_def split: number.splits)

lemma nminus_simps [simp]:
  "nminus (Num a) (Num b) = Num (a - b)" "nminus NaN x = NaN" "nminus x NaN = NaN"
  by (simp_all add: nminus_def split: number.splits)

lemma ntimes_simps [simp]:
  "ntimes (Num a) (Num b) = Num (a * b)" "ntimes NaN x = NaN" "ntimes x NaN = NaN"
  by (simp_all add: ntimes_def split: number.splits)

lemma nabs_simps [simp]: "nabs (Num a) = Num \<bar>a\<bar>" "nabs NaN = NaN"
  by (simp_all add: nabs_def)

lemma falsy_simps [simp]:
  "falsy None" "falsy (Some NaN)" "falsy (Some (Num k)) \<longleftrightarrow> k = 0"
  by (simp_all add: falsy_def)

section \<open>Dispatch selector\<close>

lemma score_Num: "score e (Num k) = Num (points k e)"
  by (simp add: score_def points_def isMovingTowards_def Let_def)

lemma score_NaN: "score e NaN = NaN"
  by (simp add: score_def isMovingTowards_def Let_def)

lemma hd_insertBy:
  "ys \<noteq> [] \<Longrightarrow> hd (insertBy cmp x ys) = (if gt (cmp x (hd ys)) (Num 0) then hd ys else x)"
  by (cases ys) simp_all

lemma insertBy_not_Nil [simp]: "insertBy cmp x ys \<noteq> []"
  by (cases ys) simp_all

lemma sortBy_Cons: "sortBy cmp (x # xs) = insertBy cmp x (sortBy cmp xs)"
  by (simp add: sortBy_def)

lemma sortBy_Nil [simp]: "sortBy cmp [] = []"
  by (simp add: sortBy_def)

lemma sortBy_Nil_iff [simp]: "sortBy cmp xs = [] \<longleftrightarrow> xs = []"
  by (cases xs) (simp_all add: sortBy_Cons)

lemma hd_sortBy_points:
  "hd (sortBy (\<lambda>a b. nminus (snd a) (snd b)) (map (\<lambda>e. (e, Num (f e))) (x # xs)))
     = (firstMin f x xs, Num (f (firstMin f x xs)))"
proof (induction xs arbitrary: x)
  case Nil
  show ?case by (simp add: sortBy_Cons)
next
  case (Cons y ys)
  let ?cmp = "\<lambda>a b. nminus (snd a) (snd (b :: 'a \<times> number))"
  have ne: "sortBy ?cmp (map (\<lambda>e. (e, Num (f e))) (y # ys)) \<noteq> []" by simp
  show ?case
    using Cons[of y] hd_insertBy[OF ne, of ?cmp "(x, Num (f x))"]
    by (simp add: sortBy_Cons) 
qed

lemma sortBy_NaN:
  "sortBy (\<lambda>a b. nminus (snd a) (snd b)) (map (\<lambda>e. (e, NaN)) xs) = map (\<lambda>e. (e, NaN)) xs"
proof (induction xs)
  case Nil
  show ?case by simp
next
  case (Cons x xs)
  then show ?case by (cases xs) (simp_all add: sortBy_Cons)
qed

lemma firstMin_index:
  "\<exists>i < length (x # xs). firstMin f x xs = (x # xs) ! i
     \<and> (\<forall>j < length (x # xs). f ((x # xs) ! i) \<le> f ((x # xs) ! j))
     \<and> (\<forall>j < i. f ((x # xs) ! i) < f ((x # xs) ! j))"
proof (induction xs arbitrary: x)
  case Nil
  show ?case by simp
next
  case (Cons y ys)
  obtain i where i: "i < length (y # ys)" "firstMin f y ys = (y # ys) ! i"
      "\<forall>j < length (y # ys). f ((y # ys) ! i) \<le> f ((y # ys) ! j)"
      "\<forall>j < i. f ((y # ys) ! i) < f ((y # ys) ! j)"
    using Cons[of y] by blast
  show ?case
  proof (cases "f x \<le> f (firstMin f y ys)")
    case True
    have "\<forall>j < length (x # y # ys). f ((x # y # ys) ! 0) \<le> f ((x # y # ys) ! j)"
    proof (intro allI impI)
      fix j assume j: "j < length (x # y # ys)"
      show "f ((x # y # ys) ! 0) \<le> f ((x # y # ys) ! j)"
      proof (cases j)
        case 0
        then show ?thesis by simp
      next
        case (Suc k)
        then have "k < length (y # ys)" using j by simp
        then have "f ((y # ys) ! i) \<le> f ((y # ys) ! k)" using i(3) by blast
        then show ?thesis using True i(2) Suc by simp
      qed
    qed
    then show ?thesis using True
      by (intro exI[of _ 0]) simp
  next
    case False
    have a: "Suc i < length (x # y # ys)" using i(1) by simp
    have b: "firstMin f x (y # ys) = (x # y # ys) ! Suc i" using False i(2) by simp
    have c: "\<forall>j < length (x # y # ys). f ((x # y # ys) ! Suc i) \<le> f ((x # y # ys) ! j)"
    proof (intro allI impI)
      fix j assume j: "j < length (x # y # ys)"
      show "f ((x # y # ys) ! Suc i) \<le> f ((x # y # ys) ! j)"
      proof (cases j)
        case 0
        then show ?thesis using False i(2) by simp
      next
        case (Suc k)
        then have "k < length (y # ys)" using j by simp
        then have "f ((y # ys) ! i) \<le> f ((y # ys) ! k)" using i(3) by blast
        then show ?thesis using Suc by simp
      qed
    qed
    have d: "\<forall>j < Suc i. f ((x # y # ys) ! Suc i) < f ((x # y # ys) ! j)"
    proof (intro allI impI)
      fix j assume j: "j < Suc i"
      show "f ((x # y # ys) ! Suc i) < f ((x # y # ys) ! j)"
      proof (cases j)
        case 0
        then show ?thesis using False i(2) by simp
      next
        case (Suc k)
        then have "k < i" using j by simp
        then have "f ((y # ys) ! i) < f ((y # ys) ! k)" using i(4) by blast
        then show ?thesis using Suc by simp
      qed
    qed
    show ?thesis using a b c d by blast
  qed
qed

lemma firstMin_mem: "firstMin f x xs \<in> set (x # xs)"
  using firstMin_index[of x xs f] by (metis nth_mem)

lemma findBestElevator_Cons:
  assumes "elevators s = x # xs"
  shows "findBestElevator (Num k) toFl s
           = (Inr (firstMin (points k) x xs), logQuery ''getAllElevators'' s)"
proof -
  have m: "map (\<lambda>elevator. (elevator, score elevator (Num k))) (x # xs)
             = map (\<lambda>e. (e, Num (points k e))) (x # xs)"
    by (simp add: score_Num)
  let ?l = "sortBy (\<lambda>a b. nminus (snd a) (snd b)) (map (\<lambda>e. (e, Num (points k e))) (x # xs))"
  have "?l \<noteq> []" by simp
  then obtain b bs where l: "?l = b # bs" by (cases ?l) auto
  have "hd ?l = (firstMin (points k) x xs, Num (points k (firstMin (points k) x xs)))"
    by (rule hd_sortBy_points)
  then have "fst b = firstMin (points k) x xs" using l by simp
  then show ?thesis
    using assms l unfolding findBestElevator_def getAllElevators_def
    by (simp add: logQuery_def score_Num)
qed

lemma findBestElevator_Cons_NaN:
  assumes "elevators s = x # xs"
  shows "findBestElevator NaN toFl s = (Inr x, logQuery ''getAllElevators'' s)"
  using assms unfolding findBestElevator_def getAllElevators_def
  by (simp add: score_NaN sortBy_NaN[of "x # xs", simplified] logQuery_def)

lemma findBestElevator_Nil:
  assumes "elevators s = []"
  shows "findBestElevator fromFl toFl s = (Inl TypeError, logQuery ''getAllElevators'' s)"
  using assms by (simp add: findBestElevator_def getAllElevators_def logQuery_def)

lemma findBestElevator_state:
  "snd (findBestElevator fromFl toFl s) = logQuery ''getAllElevators'' s"
  by (simp add: findBestElevator_def getAllElevators_def Let_def split: list.splits)

lemma findBestElevator_member:
  assumes "elevators s \<noteq> []"
  shows "\<exists>best \<in> set (elevators s). fst (findBestElevator fromFl toFl s) = Inr best"
proof -
  obtain x xs where e: "elevators s = x # xs" using assms by (cases "elevators s") auto
  show ?thesis
  proof (cases fromFl)
    case NaN
    then show ?thesis using e by (simp add: findBestElevator_Cons_NaN)
  next
    case (Num k)
    then show ?thesis using e firstMin_mem[of "points k" x xs]
      by (simp add: findBestElevator_Cons)
  qed
qed


section \<open>Rounding to doubles\<close>

lemma pow2_powi: "pow2 e = 2 powi e"
  by (simp add: pow2_def power_int_def inverse_eq_divide power_one_over)

lemma pow2_pos [simp]: "0 < pow2 e"
  by (simp add: pow2_powi)

lemma pow2_nonneg [simp]: "0 \<le> pow2 e"
  by (simp add: pow2_powi)

lemma pow2_nonzero [simp]: "pow2 e \<noteq> 0"
  by (simp add: pow2_powi)

lemma pow2_minus: "pow2 (- e) = 1 / pow2 e"
  by (simp add: pow2_powi power_int_minus_divide)

lemma pow2_Suc: "pow2 (e + 1) = 2 * pow2 e"
  by (simp add: pow2_powi power_int_add)

lemma pow2_add: "pow2 (a + b) = pow2 a * pow2 b"
  by (simp add: pow2_powi power_int_add)

lemma pow2_less: "a < b \<Longrightarrow> pow2 a < pow2 b"
  by (simp add: pow2_powi power_int_strict_increasing)

lemma pow2_le: "a \<le> b \<Longrightarrow> pow2 a \<le> pow2 b"
  by (simp add: pow2_powi power_int_increasing)

lemma pow2_nat: "0 \<le> e \<Longrightarrow> pow2 e = 2 ^ nat e"
  by (simp add: pow2_def)

lemma ilog2_bounds:
  assumes "0 < a"
  shows "pow2 (ilog2 a) \<le> a \<and> a < pow2 (ilog2 a + 1)"
proof (cases "1 \<le> a")
  case True
  let ?n = "\<lfloor>a\<rfloor>"
  have n: "0 < ?n" using True by simp
  have e: "ilog2 a = bitlen ?n - 1" using True by (simp add: ilog2_def)
  have b: "2 ^ nat (bitlen ?n - 1) \<le> ?n" "?n < 2 ^ nat (bitlen ?n)"
    using bitlen_bounds[OF n] by simp_all
  have ge: "1 \<le> bitlen ?n" using n by (simp add: bitlen_alt_def)
  have "(of_int (2 ^ nat (bitlen ?n - 1)) :: rat) \<le> of_int ?n"
    using b(1) by (simp only: of_int_le_iff)
  also have "\<dots> \<le> a" by simp
  finally have lo: "pow2 (ilog2 a) \<le> a" using ge by (simp add: e pow2_nat)
  have "?n + 1 \<le> 2 ^ nat (bitlen ?n)" using b(2) by simp
  then have "(of_int (?n + 1) :: rat) \<le> of_int (2 ^ nat (bitlen ?n))"
    by (simp only: of_int_le_iff)
  moreover have "a < of_int (?n + 1)" by linarith
  ultimately have "a < of_int (2 ^ nat (bitlen ?n))" by linarith
  then have hi: "a < pow2 (ilog2 a + 1)" using ge by (simp add: e pow2_nat)
  show ?thesis using lo hi by simp
next
  case False
  let ?b = "1 / a"
  let ?m = "\<lceil>?b\<rceil> - 1"
  let ?L = "bitlen ?m"
  have b1: "1 < ?b" using False assms by (simp add: field_simps)
  then have "2 \<le> \<lceil>?b\<rceil>" by linarith
  then have m: "0 < ?m" by simp
  have e: "ilog2 a = - ?L" using False by (simp add: ilog2_def)
  have b: "2 ^ nat (?L - 1) \<le> ?m" "?m < 2 ^ nat ?L"
    using bitlen_bounds[OF m] by simp_all
  have ge: "1 \<le> ?L" using m by (simp add: bitlen_alt_def)
  have "?b \<le> of_int (?m + 1)" by simp
  also have "\<dots> \<le> of_int (2 ^ nat ?L)" using b(2) by (simp only: of_int_le_iff)
  finally have "?b \<le> 2 ^ nat ?L" by simp
  then have "1 \<le> 2 ^ nat ?L * a" using assms by (simp add: field_simps)
  then have lo: "pow2 (ilog2 a) \<le> a"
    using ge by (simp add: e pow2_def field_simps)
  have "(of_int (2 ^ nat (?L - 1)) :: rat) \<le> of_int ?m" using b(1) by (simp only: of_int_le_iff)
  moreover have "of_int ?m < ?b" by linarith
  ultimately have "(2 :: rat) ^ nat (?L - 1) < ?b" by simp
  then have "2 ^ nat (?L - 1) * a < 1" using assms by (simp add: field_simps)
  then have x: "a < 1 / 2 ^ nat (?L - 1)" by (simp add: field_simps)
  have "pow2 (ilog2 a + 1) = 1 / 2 ^ nat (?L - 1)"
  proof (cases "?L = 1")
    case True
    then show ?thesis by (simp add: e pow2_def)
  next
    case False
    then have "1 < ?L" using ge by simp
    then show ?thesis by (simp add: e pow2_def)
  qed
  then have hi: "a < pow2 (ilog2 a + 1)" using x by simp
  show ?thesis using lo hi by simp
qed

lemma ilog2_eqI:
  assumes "pow2 e \<le> a" "a < pow2 (e + 1)"
  shows "ilog2 a = e"
proof -
  have a: "0 < a" using assms(1) pow2_pos[of e] by linarith
  note b = ilog2_bounds[OF a]
  have "\<not> ilog2 a < e"
  proof
    assume "ilog2 a < e"
    then have "pow2 (ilog2 a + 1) \<le> pow2 e" by (intro pow2_le) simp
    then show False using b assms by linarith
  qed
  moreover have "\<not> e < ilog2 a"
  proof
    assume "e < ilog2 a"
    then have "pow2 (e + 1) \<le> pow2 (ilog2 a)" by (intro pow2_le) simp
    then show False using b assms by linarith
  qed
  ultimately show ?thesis by simp
qed

lemma roundEven_bounds: "of_int (roundEven x) \<le> x + 1 / 2 \<and> x - 1 / 2 \<le> of_int (roundEven x)"
proof -
  have "of_int \<lfloor>x\<rfloor> \<le> x" "x < of_int \<lfloor>x\<rfloor> + 1" by linarith+
  then show ?thesis unfolding roundEven_def Let_def by (simp split: if_splits) linarith
qed

lemma roundEven_of_int [simp]: "roundEven (of_int n) = n"
  by (simp add: roundEven_def)

lemma roundEven_le:
  assumes "x \<le> of_int n"
  shows "roundEven x \<le> n"
proof -
  have "\<lfloor>x\<rfloor> \<le> n" using assms by (simp add: floor_le_iff)
  show ?thesis
  proof (cases "\<lfloor>x\<rfloor> = n")
    case True
    then have "x = of_int n" using assms by linarith
    then show ?thesis by simp
  next
    case False
    then have "\<lfloor>x\<rfloor> + 1 \<le> n" using \<open>\<lfloor>x\<rfloor> \<le> n\<close> by simp
    then show ?thesis by (auto simp: roundEven_def Let_def)
  qed
qed

text \<open>Rounding a positive value whose binary exponent is known.\<close>

lemma round64_pos:
  assumes "pow2 e \<le> x" "x < pow2 (e + 1)" "- 1022 \<le> e" "e \<le> 1023"
  shows "round64 x =
           (if pow2 1024 \<le> of_int (roundEven (x / pow2 (e - 52))) * pow2 (e - 52) then FInf True
            else Fin (of_int (roundEven (x / pow2 (e - 52))) * pow2 (e - 52)))"
proof -
  have x: "0 < x" using assms(1) pow2_pos[of e] by linarith
  have "ilog2 x = e" using assms(1,2) by (rule ilog2_eqI)
  then show ?thesis using x assms(3) by (simp add: round64_def Let_def max_def)
qed

lemma round64_pos_finite:
  assumes "pow2 e \<le> x" "x < pow2 (e + 1)" "- 1022 \<le> e" "e \<le> 1022"
  shows "round64 x = Fin (of_int (roundEven (x / pow2 (e - 52))) * pow2 (e - 52))"
proof -
  let ?q = "pow2 (e - 52)"
  have "x / ?q < pow2 (e + 1) / ?q" using assms(2) by (simp add: divide_strict_right_mono)
  also have "pow2 (e + 1) / ?q = pow2 53"
    using pow2_add[of "e - 52" 53] by (simp add: field_simps)
  also have "pow2 53 = of_int (2 ^ 53)" by (simp add: pow2_def)
  finally have "roundEven (x / ?q) \<le> 2 ^ 53" by (intro roundEven_le) simp
  then have "(of_int (roundEven (x / ?q)) :: rat) \<le> of_int (2 ^ 53)" by (simp only: of_int_le_iff)
  then have "(of_int (roundEven (x / ?q)) :: rat) \<le> pow2 53" by (simp add: pow2_nat)
  then have "of_int (roundEven (x / ?q)) * ?q \<le> pow2 53 * ?q"
    by (intro mult_right_mono) simp_all
  also have "pow2 53 * ?q = pow2 (e + 1)" using pow2_add[of 53 "e - 52"] by (simp add: add.commute)
  also have "\<dots> < pow2 1024" using assms(4) by (intro pow2_less) simp
  finally show ?thesis using round64_pos[OF assms(1,2,3)] assms(4) by simp
qed

text \<open>Integers up to \<open>2^53\<close> are doubles.\<close>

lemma round64_of_int:
  assumes "\<bar>n\<bar> \<le> 2 ^ 53"
  shows "round64 (of_int n) = Fin (of_int n)"
proof (cases "n = 0")
  case True
  then show ?thesis by (simp add: round64_def)
next
  case False
  let ?a = "\<bar>of_int n\<bar> :: rat"
  let ?e = "ilog2 ?a"
  have a: "0 < ?a" using False by simp
  note b = ilog2_bounds[OF a]
  have "1 \<le> \<bar>n\<bar>" using False by simp
  then have "(1 :: rat) \<le> of_int \<bar>n\<bar>" by (simp only: of_int_1_le_iff)
  then have a1: "1 \<le> ?a" by simp
  have e0: "0 \<le> ?e"
  proof (rule ccontr)
    assume "\<not> 0 \<le> ?e"
    then have "pow2 (?e + 1) \<le> pow2 0" by (intro pow2_le) simp
    then show False using b a1 by (simp add: pow2_def)
  qed
  have "(of_int \<bar>n\<bar> :: rat) \<le> of_int (2 ^ 53)" using assms by (simp only: of_int_le_iff)
  then have "?a \<le> of_int (2 ^ 53)" by simp
  then have "?a \<le> pow2 53" by (simp add: pow2_def)
  then have "pow2 ?e \<le> pow2 53" using b by linarith
  then have e53: "?e \<le> 53"
    by (metis not_less pow2_less leD)
  have m: "max ?e (- 1022) = ?e" using e0 by simp
  have int: "\<exists>k. ?a / pow2 (?e - 52) = of_int k"
  proof (cases "?e \<le> 52")
    case True
    have "?a / pow2 (?e - 52) = ?a * pow2 (52 - ?e)"
      using pow2_minus[of "?e - 52"] by simp
    also have "\<dots> = of_int (\<bar>n\<bar> * 2 ^ nat (52 - ?e))" using True by (simp add: pow2_nat)
    finally show ?thesis by blast
  next
    case False
    then have e: "?e = 53" using e53 by simp
    then have "pow2 53 \<le> ?a" using b by simp
    then have "?a = pow2 53" using \<open>?a \<le> pow2 53\<close> by simp
    moreover have "pow2 (?e - 52) = 2" unfolding e by (simp add: pow2_def)
    ultimately have "?a / pow2 (?e - 52) = pow2 53 / 2" by simp
    also have "\<dots> = of_int (2 ^ 52)" by (simp add: pow2_def)
    finally show ?thesis by blast
  qed
  then obtain k where k: "?a / pow2 (?e - 52) = of_int k" by blast
  have "of_int (roundEven (?a / pow2 (?e - 52))) * pow2 (?e - 52)
          = (?a / pow2 (?e - 52)) * pow2 (?e - 52)"
    unfolding k by simp
  then have eqM: "of_int (roundEven (?a / pow2 (?e - 52))) * pow2 (?e - 52) = ?a"
    by simp
  have lt: "\<not> pow2 1024 \<le> ?a"
  proof -
    have "pow2 53 < pow2 1024" by (intro pow2_less) simp
    then show ?thesis using \<open>?a \<le> pow2 53\<close> by linarith
  qed
  have nz: "(of_int n :: rat) \<noteq> 0" using False by simp
  have "round64 (of_int n) = Fin (if 0 < (of_int n :: rat) then ?a else - ?a)"
    unfolding round64_def Let_def m eqM using nz lt by (simp only: if_False)
  also have "(if 0 < (of_int n :: rat) then ?a else - ?a) = of_int n" by simp
  finally show ?thesis .
qed

lemma toFloat_Num: "\<bar>n\<bar> \<le> 2 ^ 53 \<Longrightarrow> toFloat (Num n) = Fin (of_int n)"
  by (simp add: toFloat_def round64_of_int)

lemma roundEven_near:
  assumes "of_int n - 1 / 2 < x" "x < of_int n + 1 / 2"
  shows "roundEven x = n"
proof -
  have f: "\<lfloor>x\<rfloor> = n \<or> \<lfloor>x\<rfloor> = n - 1" using assms by linarith
  show ?thesis
  proof (cases "\<lfloor>x\<rfloor> = n")
    case True
    then show ?thesis using assms by (simp add: roundEven_def Let_def)
  next
    case False
    then have "\<lfloor>x\<rfloor> = n - 1" using f by simp
    then show ?thesis using assms by (simp add: roundEven_def Let_def)
  qed
qed

lemma roundEven_tie:
  assumes "x = of_int n + 1 / 2"
  shows "roundEven x = (if even n then n else n + 1)"
proof -
  have "\<lfloor>x\<rfloor> = n" unfolding assms by linarith
  then show ?thesis using assms by (simp add: roundEven_def Let_def)
qed

lemma round64_near:
  assumes "pow2 e \<le> x" "x < pow2 (e + 1)" "- 1022 \<le> e" "e \<le> 1022"
    "of_int n - 1 / 2 < x / pow2 (e - 52)" "x / pow2 (e - 52) < of_int n + 1 / 2"
  shows "round64 x = Fin (of_int n * pow2 (e - 52))"
  using round64_pos_finite[OF assms(1-4)] roundEven_near[OF assms(5,6)] by simp

lemma round64_tie:
  assumes "pow2 e \<le> x" "x < pow2 (e + 1)" "- 1022 \<le> e" "e \<le> 1022"
    "x / pow2 (e - 52) = of_int n + 1 / 2"
  shows "round64 x = Fin (of_int (if even n then n else n + 1) * pow2 (e - 52))"
  using round64_pos_finite[OF assms(1-4)] roundEven_tie[OF assms(5)] by simp

lemma double_tenth: "round64 (1 / 10) = Fin (3602879701896397 / 2 ^ 55)"
  using round64_near[of "- 4" "1 / 10" 7205759403792794]
  by (simp add: pow2_def)

lemma double_fifth: "round64 (1 / 5) = Fin (3602879701896397 / 2 ^ 54)"
  using round64_near[of "- 3" "1 / 5" 7205759403792794]
  by (simp add: pow2_def)

lemma three_tenths:
  "fmul (Fin 3) (Fin (3602879701896397 / 2 ^ 55)) = Fin (5404319552844596 / 2 ^ 54)"
  using round64_tie[of "- 2" "3 * (3602879701896397 / 2 ^ 55)" 5404319552844595]
  by (simp add: fmul_def pow2_def)

lemma two_fifths:
  "fmul (Fin (3602879701896397 / 2 ^ 54)) (Fin 2) = Fin (3602879701896397 / 2 ^ 53)"
  using round64_near[of "- 2" "3602879701896397 / 2 ^ 54 * 2" 7205759403792794]
  by (simp add: fmul_def pow2_def)

lemma seven_tenths:
  "fadd (Fin (5404319552844596 / 2 ^ 54)) (Fin (3602879701896397 / 2 ^ 53))
     = Fin (6305039478318695 / 2 ^ 53)"
  using round64_near[of "- 1" "5404319552844596 / 2 ^ 54 + 3602879701896397 / 2 ^ 53" 6305039478318695]
  by (simp add: fadd_def pow2_def)

lemma half: "round64 (1 / 2) = Fin (1 / 2)"
  using round64_near[of "- 1" "1 / 2" "2 ^ 52"]
  by (simp add: pow2_def)

section \<open>The effect of each operation on the state\<close>

lemma updateElevator_eq:
  "updateElevator e s =
     s\<lparr>query_logs := query_logs s @ [''updateElevator''],
       elevators := replaceRow e (elevators s),
       persisted := persisted s @ [(e, queueOf s (eid e))]\<rparr>"
  by (simp add: updateElevator_def logQuery_def replaceRow_def queueOf_def Let_def)

lemma replaceRow_twice:
  "eid a = eid b \<Longrightarrow> replaceRow b (replaceRow a rows) = replaceRow b rows"
  by (induction rows) (simp_all add: replaceRow_def)

lemma in_replaceRow:
  "r \<in> set (replaceRow e rows) \<Longrightarrow> r = e \<or> (r \<in> set rows \<and> eid r \<noteq> eid e)"
  by (auto simp: replaceRow_def split: if_splits)

lemma find_eid: "find (\<lambda>r. eid r = i) rows = Some r \<Longrightarrow> eid r = i \<and> r \<in> set rows"
  by (induction rows) (auto split: if_splits)

lemma find_replaceRow:
  "find (\<lambda>r. eid r = i) rows = Some r \<Longrightarrow> eid e = i \<Longrightarrow>
   find (\<lambda>r. eid r = i) (replaceRow e rows) = Some e"
  by (induction rows) (auto simp: replaceRow_def split: if_splits)

lemma find_replaceRow_other:
  "eid e \<noteq> i \<Longrightarrow>
   find (\<lambda>r. eid r = i) (replaceRow e rows) = find (\<lambda>r. eid r = i) rows"
  by (induction rows) (auto simp: replaceRow_def split: if_splits)

lemma map_eid_replaceRow [simp]: "map eid (replaceRow e rows) = map eid rows"
  by (induction rows) (simp_all add: replaceRow_def)

lemma row_ids [simp]:
  "eid (calledRow e t) = eid e" "eid (movedRow e) = eid e" "eid (stoppedRow e) = eid e"
  "eid (settled e) = eid e" "eid (promotedRow e t) = eid e"
  by (simp_all add: calledRow_def movedRow_def stoppedRow_def settled_def promotedRow_def)

lemma queueOf_upd [simp]:
  "queueOf (s\<lparr>query_logs := a\<rparr>) i = queueOf s i"
  "queueOf (s\<lparr>elevators := b\<rparr>) i = queueOf s i"
  "queueOf (s\<lparr>elevator_logs := c\<rparr>) i = queueOf s i"
  "queueOf (s\<lparr>activeMovements := d\<rparr>) i = queueOf s i"
  "queueOf (s\<lparr>chains := e\<rparr>) i = queueOf s i"
  "queueOf (s\<lparr>persisted := f\<rparr>) i = queueOf s i"
  "queueOf (s\<lparr>config := g\<rparr>) i = queueOf s i"
  by (simp_all add: queueOf_def)

lemma queueOf_floorQueues_upd:
  "queueOf (s\<lparr>floorQueues := (floorQueues s)(j \<mapsto> q)\<rparr>) i = (if i = j then q else queueOf s i)"
  by (simp add: queueOf_def)

lemma queueOf_map_upd [simp]:
  "queueOf (s\<lparr>floorQueues := m(j \<mapsto> q)\<rparr>) i
     = (if i = j then q else queueOf (s\<lparr>floorQueues := m\<rparr>) i)"
  by (simp add: queueOf_def)

lemma queueOf_same [simp]: "queueOf (s\<lparr>floorQueues := floorQueues s'\<rparr>) i = queueOf s' i"
  by (simp add: queueOf_def)

lemma doorPhase_eq:
  "doorPhase st ev det e s =
     (e\<lparr>state := st\<rparr>,
      s\<lparr>query_logs := query_logs s @ [''updateElevator''],
        elevators := replaceRow (e\<lparr>state := st\<rparr>) (elevators s),
        persisted := persisted s @ [(e\<lparr>state := st\<rparr>, queueOf s (eid e))],
        elevator_logs := elevator_logs s @ [doorLog ev det (e\<lparr>state := st\<rparr>)]\<rparr>)"
  by (simp add: doorPhase_def updateElevator_eq logElevatorEvent_def doorLog_def Let_def)

lemma resetToIdle_eq:
  "resetToIdle e s =
     (settled e,
      s\<lparr>query_logs := query_logs s @ [''updateElevator''],
        elevators := replaceRow (settled e) (elevators s),
        persisted := persisted s @ [(settled e, queueOf s (eid e))],
        elevator_logs := elevator_logs s @ [doorLog ''elevator_idle'' IdleAt (settled e)]\<rparr>)"
  by (simp add: resetToIdle_def updateElevator_eq logElevatorEvent_def doorLog_def Let_def
      settled_def)

lemma handleArrival_eq:
  "handleArrival e s =
     (settled e,
      s\<lparr>query_logs := query_logs s @ replicate 4 ''updateElevator'',
        elevators := replaceRow (settled e) (elevators s),
        persisted := persisted s @
          [(e\<lparr>state := doors_opening\<rparr>, queueOf s (eid e)),
           (e\<lparr>state := doors_open\<rparr>, queueOf s (eid e)),
           (e\<lparr>state := doors_closing\<rparr>, queueOf s (eid e)),
           (settled e, queueOf s (eid e))],
        elevator_logs := elevator_logs s @
          [doorLog ''doors_opening'' DoorsOpeningAt (e\<lparr>state := doors_opening\<rparr>),
           doorLog ''doors_open'' DoorsOpenAt (e\<lparr>state := doors_open\<rparr>),
           doorLog ''doors_closing'' DoorsClosingAt (e\<lparr>state := doors_closing\<rparr>),
           doorLog ''elevator_idle'' IdleAt (settled e)]\<rparr>)"
  by (simp add: handleArrival_def doorPhase_eq resetToIdle_eq replaceRow_twice settled_def
      numeral_eq_Suc)

text \<open>A timer fires: the invocation is taken from the waiting ones and goes on.\<close>

lemma step_Tick:
  "k < length (chains s i) \<Longrightarrow>
   step (Tick i k) s = resume (chains s i ! k) i (s\<lparr>chains := (chains s)(i := others s i k)\<rparr>)"
  by (simp add: step_def others_def)

lemma step_Tick_none: "\<not> k < length (chains s i) \<Longrightarrow> step (Tick i k) s = s"
  by (simp add: step_def)


lemma tick_stop:
  assumes "k < length (chains s i)" "chains s i ! k = Due"
    "find (\<lambda>r. eid r = i) (elevators s) = Some r" "falsy (targetFloor r)"
  shows "step (Tick i k) s =
           s\<lparr>chains := (chains s)(i := others s i k),
             query_logs := query_logs s @ [''getElevator''],
             activeMovements := activeMovements s - {i}\<rparr>"
  using assms
  by (simp add: step_Tick resume_def moveElevator_def getElevator_def logQuery_def)

lemma tick_arrive:
  assumes "k < length (chains s i)" "chains s i ! k = Due"
    "find (\<lambda>r. eid r = i) (elevators s) = Some r"
    "targetFloor r = Some (Num (currentFloor r))" "currentFloor r \<noteq> 0"
  shows "step (Tick i k) s =
           s\<lparr>chains := (chains s)(i := others s i k @ [DoorsOpening (r\<lparr>state := doors_opening\<rparr>)]),
             query_logs := query_logs s @ [''getElevator'', ''updateElevator''],
             elevators := replaceRow (r\<lparr>state := doors_opening\<rparr>) (elevators s),
             persisted := persisted s @ [(r\<lparr>state := doors_opening\<rparr>, queueOf s i)],
             elevator_logs := elevator_logs s @
               [doorLog ''doors_opening'' DoorsOpeningAt (r\<lparr>state := doors_opening\<rparr>)]\<rparr>"
proof -
  have i: "eid r = i" using find_eid[OF assms(3)] by simp
  show ?thesis
    using assms i
    by (simp add: step_Tick resume_def moveElevator_def getElevator_def logQuery_def
        doorPhase_eq)
qed

lemma tick_move:
  assumes "k < length (chains s i)" "chains s i ! k = Due"
    "find (\<lambda>r. eid r = i) (elevators s) = Some r"
    "\<not> falsy (targetFloor r)" "targetFloor r \<noteq> Some (Num (currentFloor r))"
    "\<not> (lt (Num (currentFloor (movedRow r))) (Num 1) \<or>
        gt (Num (currentFloor (movedRow r))) (totalFloors (config s)))"
  shows "step (Tick i k) s =
           s\<lparr>chains := (chains s)(i := others s i k @ [Due]),
             query_logs := query_logs s @ [''getElevator'', ''updateElevator''],
             elevators := replaceRow (movedRow r) (elevators s),
             persisted := persisted s @ [(movedRow r, queueOf s i)],
             elevator_logs := elevator_logs s @ [movedLog (movedRow r)],
             activeMovements := insert i (activeMovements s)\<rparr>"
proof -
  have i: "eid r = i" using find_eid[OF assms(3)] by simp
  show ?thesis
    using assms i
    by (cases "direction r = Some up")
       (simp_all add: step_Tick resume_def moveElevator_def getElevator_def logQuery_def
        updateElevator_eq logElevatorEvent_def Let_def movedRow_def movedLog_def)
qed


lemma tick_doors_open:
  assumes "k < length (chains s i)" "chains s i ! k = DoorsOpening e"
  shows "step (Tick i k) s =
           s\<lparr>chains := (chains s)(i := others s i k @ [DoorsOpen (e\<lparr>state := doors_open\<rparr>)]),
             query_logs := query_logs s @ [''updateElevator''],
             elevators := replaceRow (e\<lparr>state := doors_open\<rparr>) (elevators s),
             persisted := persisted s @ [(e\<lparr>state := doors_open\<rparr>, queueOf s (eid e))],
             elevator_logs := elevator_logs s @
               [doorLog ''doors_open'' DoorsOpenAt (e\<lparr>state := doors_open\<rparr>)]\<rparr>"
  using assms by (simp add: step_Tick resume_def doorPhase_eq)

lemma tick_doors_closing:
  assumes "k < length (chains s i)" "chains s i ! k = DoorsOpen e"
  shows "step (Tick i k) s =
           s\<lparr>chains := (chains s)(i := others s i k @ [DoorsClosing (e\<lparr>state := doors_closing\<rparr>)]),
             query_logs := query_logs s @ [''updateElevator''],
             elevators := replaceRow (e\<lparr>state := doors_closing\<rparr>) (elevators s),
             persisted := persisted s @ [(e\<lparr>state := doors_closing\<rparr>, queueOf s (eid e))],
             elevator_logs := elevator_logs s @
               [doorLog ''doors_closing'' DoorsClosingAt (e\<lparr>state := doors_closing\<rparr>)]\<rparr>"
  using assms by (simp add: step_Tick resume_def doorPhase_eq)


lemma tick_finish_last:
  assumes "k < length (chains s i)" "chains s i ! k = DoorsClosing e" "eid e = i"
    "tl (queueOf s i) = []"
  shows "step (Tick i k) s =
           s\<lparr>chains := (chains s)(i := others s i k),
             query_logs := query_logs s @ [''updateElevator''],
             elevators := replaceRow (settled e) (elevators s),
             persisted := persisted s @ [(settled e, queueOf s i)],
             elevator_logs := elevator_logs s @ [doorLog ''elevator_idle'' IdleAt (settled e)],
             floorQueues := (case floorQueues s i of None \<Rightarrow> floorQueues s
                             | Some _ \<Rightarrow> (floorQueues s)(i \<mapsto> [])),
             activeMovements := activeMovements s - {i}\<rparr>"
  using assms
  by (simp add: step_Tick resume_def resetToIdle_eq continueQueue_def Let_def
      queueOf_def split: option.splits)

lemma callElevator_rejected:
  "\<not> passes (config s) req \<Longrightarrow>
   callElevator req s =
     (Inl (if lt (fromFloor req) (Num 1) \<or> gt (fromFloor req) (totalFloors (config s)) \<or>
              lt (toFloor req) (Num 1) \<or> gt (toFloor req) (totalFloors (config s))
           then InvalidFloor (totalFloors (config s)) else SameFloor), s)"
  by (auto simp: callElevator_def passes_def Let_def)

lemma callElevator_nofleet:
  "passes (config s) req \<Longrightarrow> elevators s = [] \<Longrightarrow>
   callElevator req s = (Inl TypeError, logQuery ''getAllElevators'' s)"
  by (simp add: callElevator_def passes_def Let_def findBestElevator_Nil)

lemma callElevator_accepted:
  assumes "passes (config s) req"
    "fst (findBestElevator (fromFloor req) (toFloor req) s) = Inr best"
  shows "callElevator req s =
     (Inr (eid best,
           calculateEstimatedTime (config s) best (fromFloor req) (toFloor req)),
      s\<lparr>query_logs := query_logs s @ [''getAllElevators'', ''updateElevator''],
        floorQueues := (floorQueues s)(eid best \<mapsto> calledQueue s best req),
        elevators := replaceRow (calledRow best (hd (calledQueue s best req))) (elevators s),
        persisted := persisted s @
          [(calledRow best (hd (calledQueue s best req)), calledQueue s best req)],
        elevator_logs := elevator_logs s @
          [calledLog (calledRow best (hd (calledQueue s best req))) req],
        chains := (if \<not> isMoving best \<and> eid best \<notin> activeMovements s
                   then (chains s)(eid best := chains s (eid best) @ [Due])
                   else chains s)\<rparr>)"
proof -
  have fb: "findBestElevator (fromFloor req) (toFloor req) s
              = (Inr best, logQuery ''getAllElevators'' s)"
    using assms(2) findBestElevator_state[of "fromFloor req" "toFloor req" s]
    by (cases "findBestElevator (fromFloor req) (toFloor req) s") simp
  show ?thesis
    using assms(1)
    by (simp add: callElevator_def passes_def fb Let_def updateElevator_eq logElevatorEvent_def
        startElevatorMovement_def logQuery_def queueOf_floorQueues_upd
        calculateEstimatedTime_def)
       (simp add: calledQueue_def legOf_def calledRow_def calledLog_def queueOf_def)
qed

lemma step_Call: "step (Call req) s = snd (callElevator req s)"
  by (simp add: step_def)

lemma step_Configure:
  "step (Configure floors moveTime doorTime) s = updateBuildingConfig floors moveTime doorTime s"
  by (simp add: step_def)

lemma execute_Nil [simp]: "execute [] s = s"
  by (simp add: execute_def)

lemma execute_Cons [simp]: "execute (st # sts) s = execute sts (step st s)"
  by (simp add: execute_def)

lemma execute_append: "execute (a @ b) s = execute b (execute a s)"
  by (simp add: execute_def)

section \<open>Flags and states in all runs\<close>

lemma flagsOK_fields [simp]:
  "flagsOK (s\<lparr>query_logs := a\<rparr>) = flagsOK s"
  "flagsOK (s\<lparr>elevator_logs := b\<rparr>) = flagsOK s"
  "flagsOK (s\<lparr>floorQueues := c\<rparr>) = flagsOK s"
  "flagsOK (s\<lparr>activeMovements := d\<rparr>) = flagsOK s"
  "flagsOK (s\<lparr>chains := e\<rparr>) = flagsOK s"
  "flagsOK (s\<lparr>config := f\<rparr>) = flagsOK s"
  by (simp_all add: flagsOK_def)

lemma flagsOK_write:
  "flagsOK s \<Longrightarrow> flagFollowsState e \<Longrightarrow> elevators s' = replaceRow e (elevators s) \<Longrightarrow>
   persisted s' = persisted s @ [(e, q)] \<Longrightarrow> flagsOK s'"
  by (auto simp: flagsOK_def dest: in_replaceRow)

lemma flagsOK_updateElevator:
  "flagsOK s \<Longrightarrow> flagFollowsState e \<Longrightarrow> flagsOK (updateElevator e s)"
  by (rule flagsOK_write[of s e _ "queueOf s (eid e)"]) (simp_all add: updateElevator_eq)

lemma flag_written [simp]:
  "flagFollowsState (e\<lparr>state := doors_opening\<rparr>)"
  "flagFollowsState (e\<lparr>state := doors_open\<rparr>)"
  "flagFollowsState (e\<lparr>state := doors_closing\<rparr>)"
  "flagFollowsState (settled e)" "flagFollowsState (promotedRow e t)"
  "flagFollowsState (movedRow e)" "flagFollowsState (stoppedRow e)"
  "flagFollowsState (calledRow e t) = flagFollowsState e"
  by (simp_all add: flagFollowsState_def settled_def promotedRow_def movedRow_def stoppedRow_def
      calledRow_def)

lemma flagsOK_doorPhase:
  "flagsOK s \<Longrightarrow> st \<in> {doors_opening, doors_open, doors_closing} \<Longrightarrow>
   flagsOK (snd (doorPhase st ev det e s))"
  by (auto simp: doorPhase_def Let_def logElevatorEvent_def intro!: flagsOK_updateElevator)

lemma flagsOK_resetToIdle: "flagsOK s \<Longrightarrow> flagsOK (snd (resetToIdle e s))"
  by (rule flagsOK_write[of s "settled e" _ "queueOf s (eid e)"])
     (simp_all add: resetToIdle_eq)

lemma flagsOK_continueQueue: "flagsOK s \<Longrightarrow> flagsOK (continueQueue i e s)"
proof -
  assume s: "flagsOK s"
  have a: "\<And>s'. flagsOK s' \<Longrightarrow>
          flagsOK (updateElevator (promotedRow e (hd (tl (queueOf s i)))) s')"
    by (rule flagsOK_updateElevator) simp_all
  show ?thesis
    using s a
    by (auto simp: continueQueue_def Let_def startElevatorMovement_def promotedRow_def
        split: option.splits)
qed

lemma flagsOK_moveElevator: "flagsOK s \<Longrightarrow> flagsOK (moveElevator i s)"
proof -
  assume s: "flagsOK s"
  let ?s1 = "logQuery ''getElevator'' s"
  have s1: "flagsOK ?s1" using s by (simp add: logQuery_def)
  show ?thesis
  proof (cases "find (\<lambda>r. eid r = i) (elevators s)")
    case None
    then show ?thesis using s1 by (simp add: moveElevator_def getElevator_def)
  next
    case (Some r)
    have m: "flagsOK (updateElevator (movedRow r) ?s1)"
      using s1 by (rule flagsOK_updateElevator) simp
    have b: "flagsOK (updateElevator (stoppedRow r) ?s1)"
      using s1 by (rule flagsOK_updateElevator) simp
    have d: "flagsOK (snd (doorPhase doors_opening ''doors_opening'' DoorsOpeningAt r ?s1))"
      using s1 by (rule flagsOK_doorPhase) simp
    show ?thesis
      using Some s1 m b d
      by (cases "direction r = Some up")
         (auto simp: moveElevator_def getElevator_def Let_def logElevatorEvent_def
          movedRow_def stoppedRow_def split: prod.splits)
  qed
qed

lemma flagsOK_callElevator: "flagsOK s \<Longrightarrow> flagsOK (snd (callElevator req s))"
proof -
  assume s: "flagsOK s"
  show ?thesis
  proof (cases "passes (config s) req")
    case False
    then show ?thesis using s by (simp add: callElevator_rejected)
  next
    case True
    show ?thesis
    proof (cases "elevators s = []")
      case True
      with \<open>passes (config s) req\<close> show ?thesis
        using s by (simp add: callElevator_nofleet logQuery_def)
    next
      case False
      then obtain best where b: "best \<in> set (elevators s)"
          "fst (findBestElevator (fromFloor req) (toFloor req) s) = Inr best"
        using findBestElevator_member by blast
      have "flagFollowsState best" using s b(1) by (simp add: flagsOK_def)
      then show ?thesis
        by (intro flagsOK_write[OF s, of "calledRow best (hd (calledQueue s best req))" _
              "calledQueue s best req"])
           (simp_all add: callElevator_accepted[OF True b(2)])
    qed
  qed
qed

lemma flagsOK_step: "flagsOK s \<Longrightarrow> flagsOK (step st s)"
proof (cases st)
  case (Call req)
  assume "flagsOK s"
  then show ?thesis using Call by (simp add: step_Call flagsOK_callElevator)
next
  case (Tick i k)
  assume s: "flagsOK s"
  show ?thesis
  proof (cases "k < length (chains s i)")
    case False
    then show ?thesis using s Tick by (simp add: step_Tick_none)
  next
    case True
    let ?s0 = "s\<lparr>chains := (chains s)(i := others s i k)\<rparr>"
    have s0: "flagsOK ?s0" using s by simp
    show ?thesis
    proof (cases "chains s i ! k")
      case Due
      then show ?thesis using True Tick flagsOK_moveElevator[OF s0]
        by (simp add: step_Tick resume_def)
    next
      case (DoorsOpening e)
      then show ?thesis
        using True Tick flagsOK_doorPhase[OF s0, of doors_open "''doors_open''" DoorsOpenAt e]
        by (simp add: step_Tick resume_def case_prod_beta)
    next
      case (DoorsOpen e)
      then show ?thesis
        using True Tick
          flagsOK_doorPhase[OF s0, of doors_closing "''doors_closing''" DoorsClosingAt e]
        by (simp add: step_Tick resume_def case_prod_beta)
    next
      case (DoorsClosing e)
      then show ?thesis
        using True Tick flagsOK_continueQueue[OF flagsOK_resetToIdle[OF s0, of e]]
        by (simp add: step_Tick resume_def case_prod_beta)
    qed
  qed
next
  case (Configure floors moveTime doorTime)
  assume "flagsOK s"
  then show ?thesis using Configure by (simp add: step_Configure updateBuildingConfig_def)
qed

lemma flagsOK_execute: "flagsOK s \<Longrightarrow> flagsOK (execute steps s)"
  by (induction steps arbitrary: s) (simp_all add: flagsOK_step)

lemma flagsOK_initial:
  "\<forall>r \<in> set rows. fresh cfg r \<Longrightarrow> flagsOK (initialSystem cfg rows)"
  by (simp add: flagsOK_def initialSystem_def fresh_def flagFollowsState_def)

section \<open>Runs in a building of fixed height\<close>




lemma noAnomaly_logs [simp]:
  "noAnomaly (doorLog ''doors_opening'' DoorsOpeningAt e)"
  "noAnomaly (doorLog ''doors_open'' DoorsOpenAt e)"
  "noAnomaly (doorLog ''doors_closing'' DoorsClosingAt e)"
  "noAnomaly (doorLog ''elevator_idle'' IdleAt e)"
  "noAnomaly (movedLog e)" "noAnomaly (calledLog e req)"
  by (simp_all add: noAnomaly_def doorLog_def movedLog_def calledLog_def)

lemma rowOK_door [simp]: "rowOK T (e\<lparr>state := st\<rparr>) = rowOK T e"
  by (simp add: rowOK_def split: option.splits number.splits)

lemma rowOK_settled [simp]: "rowOK T (settled e) \<longleftrightarrow> inBuilding T (currentFloor e)"
  by (simp add: rowOK_def settled_def)










section \<open>Runs with one invocation per unit\<close>


lemma doorAt_fields [simp]:
  "doorAt (s\<lparr>query_logs := a\<rparr>) = doorAt s"
  "doorAt (s\<lparr>elevators := b\<rparr>) = doorAt s"
  "doorAt (s\<lparr>elevator_logs := c\<rparr>) = doorAt s"
  "doorAt (s\<lparr>activeMovements := d\<rparr>) = doorAt s"
  "doorAt (s\<lparr>chains := e\<rparr>) = doorAt s"
  "doorAt (s\<lparr>persisted := f\<rparr>) = doorAt s"
  "doorAt (s\<lparr>config := g\<rparr>) = doorAt s"
  by (simp_all add: doorAt_def fun_eq_iff split: option.splits)

lemma doorAt_Due [simp]: "doorAt s i Due"
  by (simp add: doorAt_def carried_def)









section \<open>A door cycle\<close>

lemma length_others: "k < length (chains s i) \<Longrightarrow> length (others s i k) = length (chains s i) - 1"
  by (simp add: others_def)

lemma others_snoc: "chains s i = cs @ [c] \<Longrightarrow> others s i (length cs) = cs"
  by (simp add: others_def)

lemma settled_door [simp]: "settled (e\<lparr>state := st\<rparr>) = settled e"
  by (simp add: settled_def)

lemma door_cycle_last:
  assumes "k < length (chains s i)" "chains s i ! k = Due"
    "find (\<lambda>r. eid r = i) (elevators s) = Some r"
    "targetFloor r = Some (Num (currentFloor r))" "currentFloor r \<noteq> 0"
    "tl (queueOf s i) = []"
  defines "n \<equiv> length (others s i k)"
  shows "execute [Tick i k, Tick i n, Tick i n, Tick i n] s =
           s\<lparr>chains := (chains s)(i := others s i k),
             query_logs := query_logs s @ ''getElevator'' # replicate 4 ''updateElevator'',
             elevators := replaceRow (settled r) (elevators s),
             persisted := persisted s @
               [(r\<lparr>state := doors_opening\<rparr>, queueOf s i),
                (r\<lparr>state := doors_open\<rparr>, queueOf s i),
                (r\<lparr>state := doors_closing\<rparr>, queueOf s i),
                (settled r, queueOf s i)],
             elevator_logs := elevator_logs s @
               [doorLog ''doors_opening'' DoorsOpeningAt (r\<lparr>state := doors_opening\<rparr>),
                doorLog ''doors_open'' DoorsOpenAt (r\<lparr>state := doors_open\<rparr>),
                doorLog ''doors_closing'' DoorsClosingAt (r\<lparr>state := doors_closing\<rparr>),
                doorLog ''elevator_idle'' IdleAt (settled r)],
             floorQueues := (case floorQueues s i of None \<Rightarrow> floorQueues s
                             | Some _ \<Rightarrow> (floorQueues s)(i \<mapsto> [])),
             activeMovements := activeMovements s - {i}\<rparr>"
proof -
  have i: "eid r = i" using find_eid[OF assms(3)] by simp
  let ?cs = "others s i k"
  let ?s1 = "step (Tick i k) s"
  note e1 = tick_arrive[OF assms(1-5)]
  have c1: "chains ?s1 i = ?cs @ [DoorsOpening (r\<lparr>state := doors_opening\<rparr>)]"
    by (simp add: e1)
  have k1: "n < length (chains ?s1 i)" "chains ?s1 i ! n = DoorsOpening (r\<lparr>state := doors_opening\<rparr>)"
    unfolding c1 n_def by simp_all
  have o1: "others ?s1 i n = ?cs" unfolding n_def using c1 by (rule others_snoc)
  let ?s2 = "step (Tick i n) ?s1"
  note e2 = tick_doors_open[OF k1]
  have c2: "chains ?s2 i = ?cs @ [DoorsOpen (r\<lparr>state := doors_open\<rparr>)]"
    by (simp add: e2 o1)
  have k2: "n < length (chains ?s2 i)" "chains ?s2 i ! n = DoorsOpen (r\<lparr>state := doors_open\<rparr>)"
    unfolding c2 by (simp_all add: n_def)
  have o2: "others ?s2 i n = ?cs" using others_snoc[OF c2] by (simp add: n_def)
  let ?s3 = "step (Tick i n) ?s2"
  note e3 = tick_doors_closing[OF k2]
  have c3: "chains ?s3 i = ?cs @ [DoorsClosing (r\<lparr>state := doors_closing\<rparr>)]"
    by (simp add: e3 o2)
  have k3: "n < length (chains ?s3 i)"
    "chains ?s3 i ! n = DoorsClosing (r\<lparr>state := doors_closing\<rparr>)"
    unfolding c3 by (simp_all add: n_def)
  have o3: "others ?s3 i n = ?cs" using others_snoc[OF c3] by (simp add: n_def)
  have "floorQueues ?s1 = floorQueues s" by (simp add: e1)
  moreover have "floorQueues ?s2 = floorQueues ?s1" by (simp add: e2)
  moreover have "floorQueues ?s3 = floorQueues ?s2" by (simp add: e3)
  ultimately have f3: "floorQueues ?s3 = floorQueues s" by simp
  then have q3: "queueOf ?s3 i = queueOf s i" by (simp add: queueOf_def)
  have t3: "tl (queueOf ?s3 i) = []" using assms(6) q3 by simp
  have i3: "eid (r\<lparr>state := doors_closing\<rparr>) = i" using i by simp
  note e4 = tick_finish_last[OF k3 i3 t3]
  have "execute [Tick i k, Tick i n, Tick i n, Tick i n] s = step (Tick i n) ?s3" by simp
  also have "\<dots> = ?s3\<lparr>chains := (chains ?s3)(i := ?cs),
             query_logs := query_logs ?s3 @ [''updateElevator''],
             elevators := replaceRow (settled r) (elevators ?s3),
             persisted := persisted ?s3 @ [(settled r, queueOf s i)],
             elevator_logs := elevator_logs ?s3 @ [doorLog ''elevator_idle'' IdleAt (settled r)],
             floorQueues := (case floorQueues s i of None \<Rightarrow> floorQueues s
                             | Some _ \<Rightarrow> (floorQueues s)(i \<mapsto> [])),
             activeMovements := activeMovements ?s3 - {i}\<rparr>"
    unfolding e4 o3 q3 f3 by simp
  also have "\<dots> = s\<lparr>chains := (chains s)(i := others s i k),
             query_logs := query_logs s @ ''getElevator'' # replicate 4 ''updateElevator'',
             elevators := replaceRow (settled r) (elevators s),
             persisted := persisted s @
               [(r\<lparr>state := doors_opening\<rparr>, queueOf s i),
                (r\<lparr>state := doors_open\<rparr>, queueOf s i),
                (r\<lparr>state := doors_closing\<rparr>, queueOf s i),
                (settled r, queueOf s i)],
             elevator_logs := elevator_logs s @
               [doorLog ''doors_opening'' DoorsOpeningAt (r\<lparr>state := doors_opening\<rparr>),
                doorLog ''doors_open'' DoorsOpenAt (r\<lparr>state := doors_open\<rparr>),
                doorLog ''doors_closing'' DoorsClosingAt (r\<lparr>state := doors_closing\<rparr>),
                doorLog ''elevator_idle'' IdleAt (settled r)],
             floorQueues := (case floorQueues s i of None \<Rightarrow> floorQueues s
                             | Some _ \<Rightarrow> (floorQueues s)(i \<mapsto> [])),
             activeMovements := activeMovements s - {i}\<rparr>"
    unfolding e3 o2 unfolding e2 o1 unfolding e1 using i
    by (simp add: replaceRow_twice numeral_eq_Suc)
  finally show ?thesis .
qed


section \<open>Serving the stop queue\<close>



lemma stopsServed_append:
  "elevator_logs s' = elevator_logs s @ ls \<Longrightarrow>
   stopsServed s' i = stopsServed s i @
     map logToFloor (filter (\<lambda>l. logElevatorId l = i \<and> event l = ''doors_opening'') ls)"
  by (simp add: stopsServed_def)

lemma stopsServed_same:
  "elevator_logs s' = elevator_logs s \<Longrightarrow> stopsServed s' i = stopsServed s i"
  by (simp add: stopsServed_def)






lemma validRequest_passes:
  "validRequest T req \<Longrightarrow> totalFloors cfg = Num T \<Longrightarrow> passes cfg req"
  by (cases "fromFloor req"; cases "toFloor req")
     (auto simp: validRequest_def passes_def inBuilding_def)



lemma stopsServed_call: "stopsServed (snd (callElevator req s)) i = stopsServed s i"
proof (cases "passes (config s) req")
  case False
  then show ?thesis by (simp add: callElevator_rejected)
next
  case True
  show ?thesis
  proof (cases "elevators s = []")
    case True
    with \<open>passes (config s) req\<close> show ?thesis
      by (simp add: callElevator_nofleet stopsServed_def logQuery_def)
  next
    case False
    then obtain best where "fst (findBestElevator (fromFloor req) (toFloor req) s) = Inr best"
      using findBestElevator_member by blast
    from callElevator_accepted[OF True this] show ?thesis
      using stopsServed_append[of "snd (callElevator req s)" s _ i]
      by (simp add: calledLog_def)
  qed
qed

section \<open>Runs of a fleet of one unit\<close>

lemma unitIs_find: "unitIs s r q cs a \<Longrightarrow> find (\<lambda>x. eid x = eid r) (elevators s) = Some r"
  by (simp add: unitIs_def)

lemma unit_call:
  assumes "unitIs s r q cs a" "passes (config s) req"
  defines "q' \<equiv> q @ legOf (currentFloor r) req"
  shows "unitIs (step (Call req) s) (calledRow r (hd q')) q'
           (if \<not> isMoving r \<and> \<not> a then cs @ [Due] else cs) a"
    and "persisted (step (Call req) s) = persisted s @ [(calledRow r (hd q'), q')]"
    and "elevator_logs (step (Call req) s)
           = elevator_logs s @ [calledLog (calledRow r (hd q')) req]"
    and "config (step (Call req) s) = config s"
proof -
  have e: "elevators s = [r]" using assms(1) by (simp add: unitIs_def)
  then obtain best where "best \<in> set (elevators s)"
    "fst (findBestElevator (fromFloor req) (toFloor req) s) = Inr best"
    using findBestElevator_member[of s] by auto
  then have b: "fst (findBestElevator (fromFloor req) (toFloor req) s) = Inr r"
    using e by simp
  note eq = callElevator_accepted[OF assms(2) b]
  have cq: "calledQueue s r req = q'"
    using assms(1) by (simp add: calledQueue_def unitIs_def q'_def)
  show "unitIs (step (Call req) s) (calledRow r (hd q')) q'
           (if \<not> isMoving r \<and> \<not> a then cs @ [Due] else cs) a"
    using assms(1) by (auto simp: step_Call eq cq unitIs_def replaceRow_def)
  show "persisted (step (Call req) s) = persisted s @ [(calledRow r (hd q'), q')]"
    by (simp add: step_Call eq cq)
  show "elevator_logs (step (Call req) s)
           = elevator_logs s @ [calledLog (calledRow r (hd q')) req]"
    by (simp add: step_Call eq cq)
  show "config (step (Call req) s) = config s"
    by (simp add: step_Call eq)
qed

lemma unit_stop:
  assumes "unitIs s r q cs a" "k < length cs" "cs ! k = Due" "falsy (targetFloor r)"
  shows "unitIs (step (Tick (eid r) k) s) r q (take k cs @ drop (Suc k) cs) False"
    and "persisted (step (Tick (eid r) k) s) = persisted s"
    and "elevator_logs (step (Tick (eid r) k) s) = elevator_logs s"
    and "config (step (Tick (eid r) k) s) = config s"
proof -
  have c: "chains s (eid r) = cs" using assms(1) by (simp add: unitIs_def)
  have k: "k < length (chains s (eid r))" "chains s (eid r) ! k = Due"
    using assms(2,3) c by simp_all
  note eq = tick_stop[OF k unitIs_find[OF assms(1)] assms(4)]
  show "unitIs (step (Tick (eid r) k) s) r q (take k cs @ drop (Suc k) cs) False"
    using assms(1) by (simp add: eq unitIs_def others_def)
  show "persisted (step (Tick (eid r) k) s) = persisted s"
    "elevator_logs (step (Tick (eid r) k) s) = elevator_logs s"
    "config (step (Tick (eid r) k) s) = config s"
    by (simp_all add: eq)
qed

lemma unit_arrive:
  assumes "unitIs s r q cs a" "k < length cs" "cs ! k = Due"
    "targetFloor r = Some (Num (currentFloor r))" "currentFloor r \<noteq> 0"
  shows "unitIs (step (Tick (eid r) k) s) (r\<lparr>state := doors_opening\<rparr>) q
           (take k cs @ drop (Suc k) cs @ [DoorsOpening (r\<lparr>state := doors_opening\<rparr>)]) a"
    and "persisted (step (Tick (eid r) k) s) = persisted s @ [(r\<lparr>state := doors_opening\<rparr>, q)]"
    and "elevator_logs (step (Tick (eid r) k) s) = elevator_logs s @
           [doorLog ''doors_opening'' DoorsOpeningAt (r\<lparr>state := doors_opening\<rparr>)]"
    and "config (step (Tick (eid r) k) s) = config s"
proof -
  have c: "chains s (eid r) = cs" "queueOf s (eid r) = q" using assms(1) by (simp_all add: unitIs_def)
  have k: "k < length (chains s (eid r))" "chains s (eid r) ! k = Due"
    using assms(2,3) c by simp_all
  note eq = tick_arrive[OF k unitIs_find[OF assms(1)] assms(4,5)]
  show "unitIs (step (Tick (eid r) k) s) (r\<lparr>state := doors_opening\<rparr>) q
           (take k cs @ drop (Suc k) cs @ [DoorsOpening (r\<lparr>state := doors_opening\<rparr>)]) a"
    using assms(1) by (simp add: eq unitIs_def others_def replaceRow_def)
  show "persisted (step (Tick (eid r) k) s) = persisted s @ [(r\<lparr>state := doors_opening\<rparr>, q)]"
    "elevator_logs (step (Tick (eid r) k) s) = elevator_logs s @
           [doorLog ''doors_opening'' DoorsOpeningAt (r\<lparr>state := doors_opening\<rparr>)]"
    "config (step (Tick (eid r) k) s) = config s"
    using c by (simp_all add: eq)
qed

lemma unit_move:
  assumes "unitIs s r q cs a" "k < length cs" "cs ! k = Due"
    "\<not> falsy (targetFloor r)" "targetFloor r \<noteq> Some (Num (currentFloor r))"
    "\<not> (lt (Num (currentFloor (movedRow r))) (Num 1) \<or>
        gt (Num (currentFloor (movedRow r))) (totalFloors (config s)))"
  shows "unitIs (step (Tick (eid r) k) s) (movedRow r) q (take k cs @ drop (Suc k) cs @ [Due]) True"
    and "persisted (step (Tick (eid r) k) s) = persisted s @ [(movedRow r, q)]"
    and "elevator_logs (step (Tick (eid r) k) s) = elevator_logs s @ [movedLog (movedRow r)]"
    and "config (step (Tick (eid r) k) s) = config s"
proof -
  have c: "chains s (eid r) = cs" "queueOf s (eid r) = q" using assms(1) by (simp_all add: unitIs_def)
  have k: "k < length (chains s (eid r))" "chains s (eid r) ! k = Due"
    using assms(2,3) c by simp_all
  note eq = tick_move[OF k unitIs_find[OF assms(1)] assms(4,5,6)]
  show "unitIs (step (Tick (eid r) k) s) (movedRow r) q (take k cs @ drop (Suc k) cs @ [Due]) True"
    using assms(1) by (simp add: eq unitIs_def others_def replaceRow_def)
  show "persisted (step (Tick (eid r) k) s) = persisted s @ [(movedRow r, q)]"
    "elevator_logs (step (Tick (eid r) k) s) = elevator_logs s @ [movedLog (movedRow r)]"
    "config (step (Tick (eid r) k) s) = config s"
    using c by (simp_all add: eq)
qed


lemma unit_open:
  assumes "unitIs s r q cs a" "k < length cs" "cs ! k = DoorsOpening e" "eid e = eid r"
  shows "unitIs (step (Tick (eid r) k) s) (e\<lparr>state := doors_open\<rparr>) q
           (take k cs @ drop (Suc k) cs @ [DoorsOpen (e\<lparr>state := doors_open\<rparr>)]) a"
    and "persisted (step (Tick (eid r) k) s) = persisted s @ [(e\<lparr>state := doors_open\<rparr>, q)]"
    and "elevator_logs (step (Tick (eid r) k) s) = elevator_logs s @
           [doorLog ''doors_open'' DoorsOpenAt (e\<lparr>state := doors_open\<rparr>)]"
    and "config (step (Tick (eid r) k) s) = config s"
proof -
  have c: "chains s (eid r) = cs" "queueOf s (eid r) = q" using assms(1) by (simp_all add: unitIs_def)
  have k: "k < length (chains s (eid r))" "chains s (eid r) ! k = DoorsOpening e"
    using assms(2,3) c by simp_all
  note eq = tick_doors_open[OF k]
  show "unitIs (step (Tick (eid r) k) s) (e\<lparr>state := doors_open\<rparr>) q
           (take k cs @ drop (Suc k) cs @ [DoorsOpen (e\<lparr>state := doors_open\<rparr>)]) a"
    using assms(1,4) by (simp add: eq unitIs_def others_def replaceRow_def)
  show "persisted (step (Tick (eid r) k) s) = persisted s @ [(e\<lparr>state := doors_open\<rparr>, q)]"
    "elevator_logs (step (Tick (eid r) k) s) = elevator_logs s @
           [doorLog ''doors_open'' DoorsOpenAt (e\<lparr>state := doors_open\<rparr>)]"
    "config (step (Tick (eid r) k) s) = config s"
    using c assms(4) by (simp_all add: eq)
qed

lemma unit_closing:
  assumes "unitIs s r q cs a" "k < length cs" "cs ! k = DoorsOpen e" "eid e = eid r"
  shows "unitIs (step (Tick (eid r) k) s) (e\<lparr>state := doors_closing\<rparr>) q
           (take k cs @ drop (Suc k) cs @ [DoorsClosing (e\<lparr>state := doors_closing\<rparr>)]) a"
    and "persisted (step (Tick (eid r) k) s) = persisted s @ [(e\<lparr>state := doors_closing\<rparr>, q)]"
    and "elevator_logs (step (Tick (eid r) k) s) = elevator_logs s @
           [doorLog ''doors_closing'' DoorsClosingAt (e\<lparr>state := doors_closing\<rparr>)]"
    and "config (step (Tick (eid r) k) s) = config s"
proof -
  have c: "chains s (eid r) = cs" "queueOf s (eid r) = q" using assms(1) by (simp_all add: unitIs_def)
  have k: "k < length (chains s (eid r))" "chains s (eid r) ! k = DoorsOpen e"
    using assms(2,3) c by simp_all
  note eq = tick_doors_closing[OF k]
  show "unitIs (step (Tick (eid r) k) s) (e\<lparr>state := doors_closing\<rparr>) q
           (take k cs @ drop (Suc k) cs @ [DoorsClosing (e\<lparr>state := doors_closing\<rparr>)]) a"
    using assms(1,4) by (simp add: eq unitIs_def others_def replaceRow_def)
  show "persisted (step (Tick (eid r) k) s) = persisted s @ [(e\<lparr>state := doors_closing\<rparr>, q)]"
    "elevator_logs (step (Tick (eid r) k) s) = elevator_logs s @
           [doorLog ''doors_closing'' DoorsClosingAt (e\<lparr>state := doors_closing\<rparr>)]"
    "config (step (Tick (eid r) k) s) = config s"
    using c assms(4) by (simp_all add: eq)
qed


lemma unit_finish:
  assumes "unitIs s r q cs a" "k < length cs" "cs ! k = DoorsClosing e" "eid e = eid r"
    "tl q = []"
  shows "unitIs (step (Tick (eid r) k) s) (settled e) [] (take k cs @ drop (Suc k) cs) False"
    and "persisted (step (Tick (eid r) k) s) = persisted s @ [(settled e, q)]"
    and "elevator_logs (step (Tick (eid r) k) s) = elevator_logs s @
           [doorLog ''elevator_idle'' IdleAt (settled e)]"
    and "config (step (Tick (eid r) k) s) = config s"
proof -
  have c: "chains s (eid r) = cs" "queueOf s (eid r) = q" using assms(1) by (simp_all add: unitIs_def)
  have k: "k < length (chains s (eid r))" "chains s (eid r) ! k = DoorsClosing e"
    using assms(2,3) c by simp_all
  have t: "tl (queueOf s (eid r)) = []" using assms(5) c by simp
  note eq = tick_finish_last[OF k assms(4) t]
  have "queueOf (step (Tick (eid r) k) s) (eid r) = []"
    using t by (simp add: eq queueOf_def split: option.splits)
  then show "unitIs (step (Tick (eid r) k) s) (settled e) [] (take k cs @ drop (Suc k) cs) False"
    using assms(1,4) by (simp add: unitIs_def) (simp add: eq others_def replaceRow_def)
  show "persisted (step (Tick (eid r) k) s) = persisted s @ [(settled e, q)]"
    "elevator_logs (step (Tick (eid r) k) s) = elevator_logs s @
           [doorLog ''elevator_idle'' IdleAt (settled e)]"
    "config (step (Tick (eid r) k) s) = config s"
    using c by (simp_all add: eq)
qed


lemma unit_initial: "unitIs (initialSystem cfg [r]) r [] [] False"
  by (simp add: unitIs_def initialSystem_def queueOf_def)

section \<open>A run of one unit from floor 1 to floor 2\<close>

lemma unit_oneChain: "unitIs s r q cs a \<Longrightarrow> length cs \<le> 1 \<Longrightarrow> oneChain s"
  by (simp add: unitIs_def oneChain_def)

lemma fresh_idleUnit: "fresh cfgTest (idleUnit i 1)"
  by (simp add: fresh_def idleUnit_def cfgTest_def inBuilding_def)

lemma passes_1_2: "passes cfgTest (requestOf 1 2)"
  by (simp add: passes_def cfgTest_def requestOf_def)

lemma afterCall_unit:
  "unitIs (step (Call (requestOf 1 2)) oneUnit) calledUnit [Num 2] [Due] False"
  "persisted (step (Call (requestOf 1 2)) oneUnit) = [(calledUnit, [Num 2])]"
  "elevator_logs (step (Call (requestOf 1 2)) oneUnit) = [calledLog calledUnit (requestOf 1 2)]"
  "config (step (Call (requestOf 1 2)) oneUnit) = cfgTest"
proof -
  have u: "unitIs oneUnit (idleUnit ''elevator-1'' 1) [] [] False"
    unfolding oneUnit_def by (rule unit_initial)
  have c: "config oneUnit = cfgTest" "persisted oneUnit = []" "elevator_logs oneUnit = []"
    by (simp_all add: oneUnit_def initialSystem_def)
  have p: "passes (config oneUnit) (requestOf 1 2)" unfolding c by (rule passes_1_2)
  have q: "[] @ legOf (currentFloor (idleUnit ''elevator-1'' 1)) (requestOf 1 2) = [Num 2]"
    by (simp add: legOf_def idleUnit_def requestOf_def)
  have r: "calledRow (idleUnit ''elevator-1'' 1) (Num 2) = calledUnit"
    by (simp add: calledRow_def idleUnit_def calledUnit_def)
  have m: "\<not> isMoving (idleUnit ''elevator-1'' 1)" by (simp add: idleUnit_def)
  note n = unit_call[OF u p, unfolded q list.sel r c]
  show "unitIs (step (Call (requestOf 1 2)) oneUnit) calledUnit [Num 2] [Due] False"
    using n(1) m by simp
  show "persisted (step (Call (requestOf 1 2)) oneUnit) = [(calledUnit, [Num 2])]"
    "elevator_logs (step (Call (requestOf 1 2)) oneUnit) = [calledLog calledUnit (requestOf 1 2)]"
    "config (step (Call (requestOf 1 2)) oneUnit) = cfgTest"
    using n(2-4) by simp_all
qed

lemma afterMove_unit:
  "unitIs afterMove arrivedUnit [Num 2] [Due] True"
  "persisted afterMove = [(calledUnit, [Num 2]), (arrivedUnit, [Num 2])]"
  "elevator_logs afterMove = [calledLog calledUnit (requestOf 1 2), movedLog arrivedUnit]"
  "config afterMove = cfgTest"
proof -
  let ?s1 = "step (Call (requestOf 1 2)) oneUnit"
  have a: "afterMove = step (Tick (eid calledUnit) 0) ?s1"
    by (simp add: afterMove_def calledUnit_def)
  have m: "movedRow calledUnit = arrivedUnit"
    by (simp add: movedRow_def calledUnit_def arrivedUnit_def)
  have g: "\<not> (lt (Num (currentFloor (movedRow calledUnit))) (Num 1) \<or>
        gt (Num (currentFloor (movedRow calledUnit))) (totalFloors (config ?s1)))"
    unfolding m afterCall_unit(4) by (simp add: arrivedUnit_def cfgTest_def)
  have "unitIs (step (Tick (eid calledUnit) 0) ?s1) (movedRow calledUnit) [Num 2]
          (take 0 [Due] @ drop (Suc 0) [Due] @ [Due]) True"
    by (rule unit_move[OF afterCall_unit(1) _ _ _ _ g]) (simp_all add: calledUnit_def)
  then show "unitIs afterMove arrivedUnit [Num 2] [Due] True"
    unfolding a m by simp
  have "persisted (step (Tick (eid calledUnit) 0) ?s1) = persisted ?s1 @ [(movedRow calledUnit, [Num 2])]"
    by (rule unit_move[OF afterCall_unit(1) _ _ _ _ g]) (simp_all add: calledUnit_def)
  then show "persisted afterMove = [(calledUnit, [Num 2]), (arrivedUnit, [Num 2])]"
    unfolding a m afterCall_unit(2) by simp
  have "elevator_logs (step (Tick (eid calledUnit) 0) ?s1)
          = elevator_logs ?s1 @ [movedLog (movedRow calledUnit)]"
    by (rule unit_move[OF afterCall_unit(1) _ _ _ _ g]) (simp_all add: calledUnit_def)
  then show "elevator_logs afterMove = [calledLog calledUnit (requestOf 1 2), movedLog arrivedUnit]"
    unfolding a m afterCall_unit(3) by simp
  have "config (step (Tick (eid calledUnit) 0) ?s1) = config ?s1"
    by (rule unit_move[OF afterCall_unit(1) _ _ _ _ g]) (simp_all add: calledUnit_def)
  then show "config afterMove = cfgTest"
    unfolding a afterCall_unit(4) .
qed

lemma arrival_unit:
  "unitIs (execute arrival oneUnit) doorUnit [Num 2] [DoorsOpening doorUnit] True"
  "persisted (execute arrival oneUnit) = persisted afterMove @ [(doorUnit, [Num 2])]"
  "elevator_logs (execute arrival oneUnit)
     = elevator_logs afterMove @ [doorLog ''doors_opening'' DoorsOpeningAt doorUnit]"
  "config (execute arrival oneUnit) = cfgTest"
proof -
  have a: "execute arrival oneUnit = step (Tick (eid arrivedUnit) 0) afterMove"
    by (simp add: arrival_def afterMove_def arrivedUnit_def)
  have d: "arrivedUnit\<lparr>state := doors_opening\<rparr> = doorUnit"
    by (simp add: arrivedUnit_def doorUnit_def)
  note n = unit_arrive[OF afterMove_unit(1), of 0, unfolded d, folded a]
  have t: "targetFloor arrivedUnit = Some (Num (currentFloor arrivedUnit))"
    "currentFloor arrivedUnit \<noteq> 0" by (simp_all add: arrivedUnit_def)
  show "unitIs (execute arrival oneUnit) doorUnit [Num 2] [DoorsOpening doorUnit] True"
    using n(1)[OF _ _ t] by simp
  show "persisted (execute arrival oneUnit) = persisted afterMove @ [(doorUnit, [Num 2])]"
    using n(2)[OF _ _ t] by simp
  show "elevator_logs (execute arrival oneUnit)
     = elevator_logs afterMove @ [doorLog ''doors_opening'' DoorsOpeningAt doorUnit]"
    using n(3)[OF _ _ t] by simp
  show "config (execute arrival oneUnit) = cfgTest"
    using n(4)[OF _ _ t] afterMove_unit(4) by simp
qed

lemma shortTrip_unit:
  "unitIs (execute shortTrip oneUnit) servedUnit [] [] False"
  "persisted (execute shortTrip oneUnit)
     = persisted afterMove @
       [(doorUnit, [Num 2]), (doorUnit\<lparr>state := doors_open\<rparr>, [Num 2]),
        (doorUnit\<lparr>state := doors_closing\<rparr>, [Num 2]), (servedUnit, [Num 2])]"
  "elevator_logs (execute shortTrip oneUnit)
     = elevator_logs afterMove @
       [doorLog ''doors_opening'' DoorsOpeningAt doorUnit,
        doorLog ''doors_open'' DoorsOpenAt (doorUnit\<lparr>state := doors_open\<rparr>),
        doorLog ''doors_closing'' DoorsClosingAt (doorUnit\<lparr>state := doors_closing\<rparr>),
        doorLog ''elevator_idle'' IdleAt servedUnit]"
  "config (execute shortTrip oneUnit) = cfgTest"
  "tidy shortTrip oneUnit"
proof -
  define s3 where "s3 = execute arrival oneUnit"
  define s4 where "s4 = step (Tick (eid doorUnit) 0) s3"
  define s5 where "s5 = step (Tick (eid (doorUnit\<lparr>state := doors_open\<rparr>)) 0) s4"
  define s6 where "s6 = step (Tick (eid (doorUnit\<lparr>state := doors_closing\<rparr>)) 0) s5"
  have e: "execute shortTrip oneUnit = s6"
    by (simp add: shortTrip_def execute_append numeral_eq_Suc s6_def s5_def s4_def s3_def
        doorUnit_def)
  note u3 = arrival_unit[folded s3_def]
  note n4 = unit_open[OF u3(1), of 0 doorUnit, folded s4_def, simplified]
  note n5 = unit_closing[OF n4(1), of 0 "doorUnit\<lparr>state := doors_open\<rparr>", folded s5_def,
      simplified]
  have s: "settled doorUnit = servedUnit" by (simp add: settled_def doorUnit_def servedUnit_def)
  note n6 = unit_finish[OF n5(1), of 0 "doorUnit\<lparr>state := doors_closing\<rparr>", folded s6_def,
      simplified, unfolded s]
  show "unitIs (execute shortTrip oneUnit) servedUnit [] [] False"
    unfolding e by (rule n6(1))
  show "persisted (execute shortTrip oneUnit)
     = persisted afterMove @
       [(doorUnit, [Num 2]), (doorUnit\<lparr>state := doors_open\<rparr>, [Num 2]),
        (doorUnit\<lparr>state := doors_closing\<rparr>, [Num 2]), (servedUnit, [Num 2])]"
    unfolding e n6(2) n5(2) n4(2) u3(2) by simp
  show "elevator_logs (execute shortTrip oneUnit)
     = elevator_logs afterMove @
       [doorLog ''doors_opening'' DoorsOpeningAt doorUnit,
        doorLog ''doors_open'' DoorsOpenAt (doorUnit\<lparr>state := doors_open\<rparr>),
        doorLog ''doors_closing'' DoorsClosingAt (doorUnit\<lparr>state := doors_closing\<rparr>),
        doorLog ''elevator_idle'' IdleAt servedUnit]"
    unfolding e n6(3) n5(3) n4(3) u3(3) by simp
  show "config (execute shortTrip oneUnit) = cfgTest"
    unfolding e n6(4) n5(4) n4(4) u3(4) ..
  have u0: "unitIs oneUnit (idleUnit ''elevator-1'' 1) [] [] False"
    unfolding oneUnit_def by (rule unit_initial)
  have o: "oneChain oneUnit" "oneChain (step (Call (requestOf 1 2)) oneUnit)"
    "oneChain afterMove" "oneChain s3" "oneChain s4" "oneChain s5"
    using unit_oneChain[OF u0] unit_oneChain[OF afterCall_unit(1)]
      unit_oneChain[OF afterMove_unit(1)] unit_oneChain[OF u3(1)] unit_oneChain[OF n4(1)]
      unit_oneChain[OF n5(1)]
    by simp_all
  have am: "afterMove = step (Tick ''elevator-1'' 0) (step (Call (requestOf 1 2)) oneUnit)"
    by (simp add: afterMove_def)
  have a3: "s3 = step (Tick ''elevator-1'' 0) afterMove"
    by (simp add: s3_def arrival_def afterMove_def)
  have a4: "s4 = step (Tick ''elevator-1'' 0) s3" by (simp add: s4_def doorUnit_def)
  have a5: "s5 = step (Tick ''elevator-1'' 0) s4" by (simp add: s5_def doorUnit_def)
  show "tidy shortTrip oneUnit"
    using o
    by (simp add: shortTrip_def arrival_def numeral_eq_Suc keepsFloors_def integerFloors_def
        requestOf_def[of 1 2, symmetric] am[symmetric] a3[symmetric] a4[symmetric] a5[symmetric])
       (simp add: requestOf_def)
qed

section \<open>A run in which the building shrinks\<close>


section \<open>A run with two invocations for one unit\<close>





section \<open>The two services\<close>

text \<open>
  C10: the selector and the estimate of \<open>src/services/ElevatorService.ts\<close> and of the
  queue-based service are the same functions: same unit (and same failure) for every fleet
  and call, same estimate for every unit, floors and configuration.
\<close>

theorem services_agree:
  "findBestElevator_base fromFl toFl s = findBestElevator fromFl toFl s \<and>
   calculateEstimatedTime_base cfg e fromFl toFl = calculateEstimatedTime cfg e fromFl toFl"
proof -
  have mt: "\<And>e f. isMovingTowards_base e f = isMovingTowards e f"
    by (simp add: isMovingTowards_base_def isMovingTowards_def)
  have sc: "\<And>e f. score_base e f = score e f"
    by (auto simp: score_base_def score_def mt Let_def)
  have "score_base = score"
    by (rule ext, rule ext, rule sc)
  then show ?thesis
    by (simp add: findBestElevator_base_def findBestElevator_def
        calculateEstimatedTime_base_def calculateEstimatedTime_def)
qed

section \<open>The selector\<close>

text \<open>
  C9, as stated, fails: with an empty fleet a call that passes validation fails with the
  \<open>TypeError\<close> that the runtime raises when \<open>findBestElevator\<close> reads
  \<open>scoredElevators[0].elevator\<close>, after the query of the fleet has been logged. The
  service has no configuration error: the only errors it constructs are the two
  validation errors of \<open>callElevator\<close>.
\<close>

theorem empty_fleet_counterexample:
  "callElevator (requestOf 1 5) (initialSystem cfgTest [])
     = (Inl TypeError, (initialSystem cfgTest [])\<lparr>query_logs := [''getAllElevators'']\<rparr>)"
  by (simp add: callElevator_nofleet passes_def requestOf_def cfgTest_def initialSystem_def
      logQuery_def)

text \<open>
  C9, amended: on a non-empty fleet the selector returns one unit of the fleet and does
  not fail; on an empty fleet it fails with the runtime's \<open>TypeError\<close>.
\<close>

theorem findBestElevator_total:
  "(elevators s \<noteq> [] \<longrightarrow> (\<exists>e \<in> set (elevators s). fst (findBestElevator fromFl toFl s) = Inr e))
   \<and> (elevators s = [] \<longrightarrow> fst (findBestElevator fromFl toFl s) = Inl TypeError)"
  using findBestElevator_member[of s fromFl toFl] findBestElevator_Nil[of s fromFl toFl]
  by auto

theorem findBestElevator_total_witness:
  "(\<exists>e \<in> set (elevators (initialSystem cfgTest defaultElevators)).
       fst (findBestElevator (Num 1) (Num 5) (initialSystem cfgTest defaultElevators)) = Inr e)
   \<and> fst (findBestElevator (Num 1) (Num 5) (initialSystem cfgTest [])) = Inl TypeError"
  using findBestElevator_total[of "initialSystem cfgTest defaultElevators" "Num 1" "Num 5"]
    findBestElevator_total[of "initialSystem cfgTest []" "Num 1" "Num 5"]
  by (simp add: initialSystem_def defaultElevators_def)

text \<open>
  C2, as stated, fails: a unit in the door phase \<open>doors_opening\<close> whose \<open>isMoving\<close>
  flag is still set and whose direction is \<open>up\<close> (the row the engine persists when a unit
  arrives by a movement step) is scored 10 for a pickup three floors above it, not the
  distance term 30: the selector tests the flag, not the state.
\<close>

theorem door_phase_score_counterexample:
  "state doorUnit = doors_opening \<and> score doorUnit (Num 5) = Num 10 \<and>
   10 * \<bar>currentFloor doorUnit - 5\<bar> = 30"
  by (simp add: doorUnit_def score_def isMovingTowards_def)

text \<open>
  C2, amended: for an integer pickup floor the score is \<open>10 * |currentFloor - pickup|\<close>,
  minus 50 when the state is \<open>idle\<close>, and, independently of the state, when the
  \<open>isMoving\<close> flag is set and the direction is not null, minus 20 when the direction
  points to the pickup floor and plus 30 otherwise. The selector returns the first unit,
  in fleet order, whose score is minimal: no unit scores lower and every unit before it
  scores higher. A unit in a door phase gets the distance term alone when its flag is
  clear or its direction is null. For a pickup floor that is \<open>NaN\<close> every score is
  \<open>NaN\<close> and the selector returns the first unit of the fleet.
\<close>

theorem findBestElevator_first_minimal:
  assumes "elevators s \<noteq> []"
  shows "(\<exists>i < length (elevators s).
           fst (findBestElevator (Num k) toFl s) = Inr (elevators s ! i)
         \<and> (\<forall>j < length (elevators s).
               \<not> lt (score (elevators s ! j) (Num k)) (score (elevators s ! i) (Num k)))
         \<and> (\<forall>j < i. lt (score (elevators s ! i) (Num k)) (score (elevators s ! j) (Num k))))
         \<and> (\<forall>e \<in> set (elevators s).
               score e (Num k) =
                 Num (10 * \<bar>currentFloor e - k\<bar>
                      - (if state e = idle then 50 else 0)
                      + (if isMoving e \<and> direction e \<noteq> None
                         then (if (direction e = Some up \<and> k > currentFloor e) \<or>
                                  (direction e = Some down \<and> k < currentFloor e)
                               then - 20 else 30)
                         else 0)))
         \<and> (\<forall>e \<in> set (elevators s).
               state e \<in> {doors_opening, doors_open, doors_closing} \<and>
               (\<not> isMoving e \<or> direction e = None) \<longrightarrow>
               score e (Num k) = Num (10 * \<bar>currentFloor e - k\<bar>))
         \<and> (\<forall>e \<in> set (elevators s). score e NaN = NaN)
         \<and> fst (findBestElevator NaN toFl s) = Inr (hd (elevators s))"
proof -
  obtain x xs where e: "elevators s = x # xs" using assms by (cases "elevators s") auto
  obtain i where i: "i < length (x # xs)" "firstMin (points k) x xs = (x # xs) ! i"
    "\<forall>j < length (x # xs). points k ((x # xs) ! i) \<le> points k ((x # xs) ! j)"
    "\<forall>j < i. points k ((x # xs) ! i) < points k ((x # xs) ! j)"
    using firstMin_index[of x xs "points k"] by blast
  have sel: "fst (findBestElevator (Num k) toFl s) = Inr (elevators s ! i)"
    using e i(2) by (simp add: findBestElevator_Cons)
  have lo: "\<forall>j < length (elevators s).
               \<not> lt (score (elevators s ! j) (Num k)) (score (elevators s ! i) (Num k))"
    using i(3) unfolding e by (simp add: score_Num not_less)
  have hi: "\<forall>j < i. lt (score (elevators s ! i) (Num k)) (score (elevators s ! j) (Num k))"
    using i(4) unfolding e by (simp add: score_Num)
  have first: "\<exists>i < length (elevators s).
           fst (findBestElevator (Num k) toFl s) = Inr (elevators s ! i)
         \<and> (\<forall>j < length (elevators s).
               \<not> lt (score (elevators s ! j) (Num k)) (score (elevators s ! i) (Num k)))
         \<and> (\<forall>j < i. lt (score (elevators s ! i) (Num k)) (score (elevators s ! j) (Num k)))"
    using i(1) sel lo hi unfolding e by blast
  have form: "\<forall>e \<in> set (elevators s).
               score e (Num k) =
                 Num (10 * \<bar>currentFloor e - k\<bar>
                      - (if state e = idle then 50 else 0)
                      + (if isMoving e \<and> direction e \<noteq> None
                         then (if (direction e = Some up \<and> k > currentFloor e) \<or>
                                  (direction e = Some down \<and> k < currentFloor e)
                               then - 20 else 30)
                         else 0))"
    by (simp add: score_Num points_def)
  have door: "\<forall>e \<in> set (elevators s).
               state e \<in> {doors_opening, doors_open, doors_closing} \<and>
               (\<not> isMoving e \<or> direction e = None) \<longrightarrow>
               score e (Num k) = Num (10 * \<bar>currentFloor e - k\<bar>)"
    by (auto simp: score_Num points_def)
  have nan: "\<forall>e \<in> set (elevators s). score e NaN = NaN" by (simp add: score_NaN)
  have seln: "fst (findBestElevator NaN toFl s) = Inr (hd (elevators s))"
    using e by (simp add: findBestElevator_Cons_NaN)
  show ?thesis using first form door nan seln by blast
qed

theorem findBestElevator_first_minimal_witness:
  "[idleUnit ''elevator-1'' 5, idleUnit ''elevator-2'' 1] \<noteq> [] \<and>
   fst (findBestElevator (Num 1) (Num 3)
          (initialSystem cfgTest [idleUnit ''elevator-1'' 5, idleUnit ''elevator-2'' 1]))
     = Inr (idleUnit ''elevator-2'' 1) \<and>
   fst (findBestElevator NaN (Num 3)
          (initialSystem cfgTest [idleUnit ''elevator-1'' 5, idleUnit ''elevator-2'' 1]))
     = Inr (idleUnit ''elevator-1'' 5)"
proof -
  let ?fleet = "[idleUnit ''elevator-1'' 5, idleUnit ''elevator-2'' 1]"
  let ?s = "initialSystem cfgTest ?fleet"
  have ne: "elevators ?s \<noteq> []" by (simp add: initialSystem_def)
  note t = findBestElevator_first_minimal[OF ne, of 1 "Num 3"]
  have el: "elevators ?s = ?fleet" by (simp add: initialSystem_def)
  obtain i where i: "i < length ?fleet"
      "fst (findBestElevator (Num 1) (Num 3) ?s) = Inr (?fleet ! i)"
      "\<forall>j < length ?fleet. \<not> lt (score (?fleet ! j) (Num 1)) (score (?fleet ! i) (Num 1))"
    using t unfolding el by blast
  have sc: "score (idleUnit ''elevator-1'' 5) (Num 1) = Num (- 10)"
    "score (idleUnit ''elevator-2'' 1) (Num 1) = Num (- 50)"
    by (simp_all add: score_def idleUnit_def)
  have "i = 1" using i(1) i(3)[rule_format, of 1] sc by (cases i) auto
  then have a: "fst (findBestElevator (Num 1) (Num 3) ?s) = Inr (idleUnit ''elevator-2'' 1)"
    using i(2) by simp
  have b: "fst (findBestElevator NaN (Num 3) ?s) = Inr (idleUnit ''elevator-1'' 5)"
    using t unfolding el by simp
  show ?thesis using a b by simp
qed

section \<open>Call acceptance\<close>

lemma callElevator_rejects:
  assumes "fromFloor req = Num a" "toFloor req = Num b" "totalFloors (config s) = Num T"
  shows "(a < 1 \<or> T < a \<or> b < 1 \<or> T < b
            \<longrightarrow> callElevator req s = (Inl (InvalidFloor (Num T)), s))
         \<and> (1 \<le> a \<and> a \<le> T \<and> a = b \<longrightarrow> callElevator req s = (Inl SameFloor, s))"
  using assms by (auto simp: callElevator_def Let_def)

text \<open>
  C3 fails in the code for a floor that is not a number. The controller turns a pickup
  floor such as \<open>"abc"\<close> into \<open>NaN\<close>; \<open>NaN\<close> lies outside \<open>[1, totalFloors]\<close>, but all
  four comparisons of the range check, and the equality check, are false for it. The call
  is accepted: the first unit of the fleet is selected, \<open>NaN\<close> and the destination are
  pushed on its queue, its row is written with \<open>targetFloor = NaN\<close>, the call is logged
  and an invocation of the engine is started; the estimate is \<open>NaN\<close>. (For integer
  floors both checks work as the claim says: \<open>callElevator_rejects\<close>.)
\<close>

theorem callElevator_accepts_NaN:
  "fst (callElevator nanCall oneUnit) = Inr (''elevator-1'', FNaN) \<and>
   queueOf (snd (callElevator nanCall oneUnit)) ''elevator-1'' = [NaN, Num 5] \<and>
   persisted (snd (callElevator nanCall oneUnit))
     = [((idleUnit ''elevator-1'' 1)\<lparr>targetFloor := Some NaN, direction := Some down\<rparr>,
         [NaN, Num 5])] \<and>
   map event (elevator_logs (snd (callElevator nanCall oneUnit))) = [''elevator_called''] \<and>
   chains (snd (callElevator nanCall oneUnit)) ''elevator-1'' = [Due]"
proof -
  have p: "passes (config oneUnit) nanCall"
    by (simp add: passes_def nanCall_def oneUnit_def initialSystem_def cfgTest_def)
  have el: "elevators oneUnit = [idleUnit ''elevator-1'' 1]"
    by (simp add: oneUnit_def initialSystem_def)
  have b: "fst (findBestElevator (fromFloor nanCall) (toFloor nanCall) oneUnit)
             = Inr (idleUnit ''elevator-1'' 1)"
    by (simp add: findBestElevator_Cons_NaN[OF el] nanCall_def)
  have q: "calledQueue oneUnit (idleUnit ''elevator-1'' 1) nanCall = [NaN, Num 5]"
    by (simp add: calledQueue_def legOf_def nanCall_def oneUnit_def initialSystem_def
        queueOf_def)
  have e: "calculateEstimatedTime (config oneUnit) (idleUnit ''elevator-1'' 1)
             (fromFloor nanCall) (toFloor nanCall) = FNaN"
    by (simp add: calculateEstimatedTime_def nanCall_def toFloat_def fmul_def fadd_def)
  show ?thesis
    unfolding callElevator_accepted[OF p b] q e
    by (simp add: calledRow_def calledLog_def idleUnit_def oneUnit_def initialSystem_def
        queueOf_def nanCall_def)
qed

lemma round64_small [simp]: "round64 1 = Fin 1" "round64 4 = Fin 4" "round64 5 = Fin 5"
  "round64 6 = Fin 6" "round64 7 = Fin 7"
  using round64_of_int[of 1] round64_of_int[of 4] round64_of_int[of 5] round64_of_int[of 6]
    round64_of_int[of 7]
  by simp_all

lemma callElevator_accept:
  assumes "passes (config s) req"
    "fst (findBestElevator (fromFloor req) (toFloor req) s) = Inr best"
  shows "fst (callElevator req s) =
           Inr (eid best, calculateEstimatedTime (config s) best (fromFloor req) (toFloor req))"
  by (simp add: callElevator_accepted[OF assms])

text \<open>
  C4: for an accepted call with integer floors the estimate is
  \<open>(|currentFloor - fromFloor| + |fromFloor - toFloor|) * floorMoveTime + doorOpenCloseTime * 2\<close>
  in the arithmetic of doubles, with the floor of the chosen unit as the selector read
  it, and it is the same whatever the stop queues hold. When the floor count, the two
  products and the sum are doubles, it is exactly that rational number. The witness is
  the two examples of the tests: 5 and 7 seconds.
\<close>

theorem callElevator_estimate:
  assumes "fromFloor req = Num a" "toFloor req = Num b" "validRequest T req"
    "totalFloors (config s) = Num T" "elevators s \<noteq> []"
  shows "\<exists>chosen \<in> set (elevators s).
           fst (findBestElevator (fromFloor req) (toFloor req) s) = Inr chosen \<and>
           fst (callElevator req s) =
             Inr (eid chosen,
                  fadd (fmul (toFloat (Num (\<bar>currentFloor chosen - a\<bar> + \<bar>a - b\<bar>)))
                             (floorMoveTime (config s)))
                       (fmul (doorOpenCloseTime (config s)) (Fin 2))) \<and>
           fst (callElevator req (s\<lparr>floorQueues := queues\<rparr>)) = fst (callElevator req s) \<and>
           (floorMoveTime (config s) = Fin m \<and> doorOpenCloseTime (config s) = Fin d \<and>
            \<bar>currentFloor chosen - a\<bar> + \<bar>a - b\<bar> \<le> 2 ^ 53 \<and>
            round64 (of_int (\<bar>currentFloor chosen - a\<bar> + \<bar>a - b\<bar>) * m)
              = Fin (of_int (\<bar>currentFloor chosen - a\<bar> + \<bar>a - b\<bar>) * m) \<and>
            round64 (d * 2) = Fin (d * 2) \<and>
            round64 (of_int (\<bar>currentFloor chosen - a\<bar> + \<bar>a - b\<bar>) * m + d * 2)
              = Fin (of_int (\<bar>currentFloor chosen - a\<bar> + \<bar>a - b\<bar>) * m + d * 2)
            \<longrightarrow> fst (callElevator req s) =
                  Inr (eid chosen,
                       Fin (of_int (\<bar>currentFloor chosen - a\<bar> + \<bar>a - b\<bar>) * m + 2 * d)))"
proof -
  obtain chosen where c: "chosen \<in> set (elevators s)"
      "fst (findBestElevator (fromFloor req) (toFloor req) s) = Inr chosen"
    using findBestElevator_member[OF assms(5)] by blast
  let ?s' = "s\<lparr>floorQueues := queues\<rparr>"
  let ?n = "\<bar>currentFloor chosen - a\<bar> + \<bar>a - b\<bar>"
  have fb: "findBestElevator (fromFloor req) (toFloor req) ?s'
      = (fst (findBestElevator (fromFloor req) (toFloor req) s),
         logQuery ''getAllElevators'' ?s')"
    by (simp add: findBestElevator_def getAllElevators_def logQuery_def Let_def
        split: list.splits)
  then have c': "fst (findBestElevator (fromFloor req) (toFloor req) ?s') = Inr chosen"
    using c(2) by simp
  have p: "passes (config s) req" using assms(3,4) by (rule validRequest_passes)
  have p': "passes (config ?s') req" using p by simp
  have est: "fst (callElevator req s) =
           Inr (eid chosen, calculateEstimatedTime (config s) chosen (fromFloor req) (toFloor req))"
    using p c(2) by (rule callElevator_accept)
  have est': "fst (callElevator req ?s') =
           Inr (eid chosen, calculateEstimatedTime (config ?s') chosen (fromFloor req) (toFloor req))"
    using p' c' by (rule callElevator_accept)
  have f: "calculateEstimatedTime (config s) chosen (fromFloor req) (toFloor req)
      = fadd (fmul (toFloat (Num ?n)) (floorMoveTime (config s)))
             (fmul (doorOpenCloseTime (config s)) (Fin 2))"
    by (simp add: calculateEstimatedTime_def assms(1,2))
  have exact: "floorMoveTime (config s) = Fin m \<and> doorOpenCloseTime (config s) = Fin d \<and>
            ?n \<le> 2 ^ 53 \<and>
            round64 (of_int ?n * m) = Fin (of_int ?n * m) \<and>
            round64 (d * 2) = Fin (d * 2) \<and>
            round64 (of_int ?n * m + d * 2) = Fin (of_int ?n * m + d * 2)
            \<longrightarrow> fst (callElevator req s) = Inr (eid chosen, Fin (of_int ?n * m + 2 * d))"
  proof
    assume h: "floorMoveTime (config s) = Fin m \<and> doorOpenCloseTime (config s) = Fin d \<and>
            ?n \<le> 2 ^ 53 \<and>
            round64 (of_int ?n * m) = Fin (of_int ?n * m) \<and>
            round64 (d * 2) = Fin (d * 2) \<and>
            round64 (of_int ?n * m + d * 2) = Fin (of_int ?n * m + d * 2)"
    then have "\<bar>?n\<bar> \<le> 2 ^ 53" by simp
    then have "toFloat (Num ?n) = Fin (of_int ?n)" by (rule toFloat_Num)
    then show "fst (callElevator req s) = Inr (eid chosen, Fin (of_int ?n * m + 2 * d))"
      unfolding est f using h by (simp add: fmul_def fadd_def mult.commute)
  qed
  have est2: "fst (callElevator req s) =
             Inr (eid chosen,
                  fadd (fmul (toFloat (Num ?n)) (floorMoveTime (config s)))
                       (fmul (doorOpenCloseTime (config s)) (Fin 2)))"
    using est f by simp
  have ind: "fst (callElevator req ?s') = fst (callElevator req s)"
    using est est' by (simp add: calculateEstimatedTime_def)
  show ?thesis
  proof (intro bexI[of _ chosen] conjI)
    show "fst (findBestElevator (fromFloor req) (toFloor req) s) = Inr chosen" by (fact c(2))
    show "fst (callElevator req s) =
             Inr (eid chosen,
                  fadd (fmul (toFloat (Num ?n)) (floorMoveTime (config s)))
                       (fmul (doorOpenCloseTime (config s)) (Fin 2)))"
      by (fact est2)
    show "fst (callElevator req ?s') = fst (callElevator req s)" by (fact ind)
    show "floorMoveTime (config s) = Fin m \<and> doorOpenCloseTime (config s) = Fin d \<and>
            ?n \<le> 2 ^ 53 \<and>
            round64 (of_int ?n * m) = Fin (of_int ?n * m) \<and>
            round64 (d * 2) = Fin (d * 2) \<and>
            round64 (of_int ?n * m + d * 2) = Fin (of_int ?n * m + d * 2)
            \<longrightarrow> fst (callElevator req s) = Inr (eid chosen, Fin (of_int ?n * m + 2 * d))"
      by (fact exact)
  qed (fact c(1))
qed

theorem callElevator_estimate_witness:
  "fst (callElevator (requestOf 1 5) (initialSystem cfgTest [idleUnit ''elevator-1'' 1]))
     = Inr (''elevator-1'', Fin 5)
   \<and> fst (callElevator (requestOf 1 5) (initialSystem cfgTest [idleUnit ''elevator-1'' 3]))
     = Inr (''elevator-1'', Fin 7)"
proof -
  have v: "validRequest 10 (requestOf 1 5)"
    by (simp add: validRequest_def requestOf_def inBuilding_def)
  have a: "fst (callElevator (requestOf 1 5) (initialSystem cfgTest [idleUnit ''elevator-1'' 1]))
     = Inr (''elevator-1'', Fin 5)"
    using callElevator_estimate[of "requestOf 1 5" 1 5 10
        "initialSystem cfgTest [idleUnit ''elevator-1'' 1]" _ 1 "1 / 2"] v
    by (simp add: requestOf_def cfgTest_def initialSystem_def idleUnit_def toFloat_def
        fmul_def fadd_def)
  have b: "fst (callElevator (requestOf 1 5) (initialSystem cfgTest [idleUnit ''elevator-1'' 3]))
     = Inr (''elevator-1'', Fin 7)"
    using callElevator_estimate[of "requestOf 1 5" 1 5 10
        "initialSystem cfgTest [idleUnit ''elevator-1'' 3]" _ 1 "1 / 2"] v
    by (simp add: requestOf_def cfgTest_def initialSystem_def idleUnit_def toFloat_def
        fmul_def fadd_def)
  show ?thesis using a b by simp
qed

text \<open>
  The products and the sum are rounded: with \<open>floorMoveTime = 0.1\<close> and
  \<open>doorOpenCloseTime = 0.2\<close> a call from floor 1 to floor 4 of a unit at floor 1 is
  estimated at \<open>0.7000000000000001\<close>, the double \<open>6305039478318695 / 2^53\<close>, which is
  not the double nearest to \<open>7/10\<close>.
\<close>

lemma estimate_is_rounded:
  "calculateEstimatedTime tenthsCfg (idleUnit ''elevator-1'' 1) (Num 1) (Num 4)
     = Fin (6305039478318695 / 2 ^ 53)"
  "round64 (7 / 10) = Fin (6305039478318694 / 2 ^ 53)"
proof -
  have t: "toFloat (Num 3) = Fin 3" using toFloat_Num[of 3] by simp
  show "calculateEstimatedTime tenthsCfg (idleUnit ''elevator-1'' 1) (Num 1) (Num 4)
     = Fin (6305039478318695 / 2 ^ 53)"
    using three_tenths two_fifths seven_tenths
    by (simp add: calculateEstimatedTime_def tenthsCfg_def idleUnit_def t double_tenth
        double_fifth)
  show "round64 (7 / 10) = Fin (6305039478318694 / 2 ^ 53)"
    using round64_near[of "- 1" "7 / 10" 6305039478318694] by (simp add: pow2_def)
qed

section \<open>Persisted states\<close>

text \<open>
  C1, as stated, fails: in the run that calls a single idle unit from floor 1 to floor 2
  and lets it move and arrive, the row persisted for the phase \<open>doors_opening\<close> has
  \<open>isMoving = true\<close>, with the served floor still in the queue.
\<close>

theorem door_phase_flag_counterexample:
  "(doorUnit, [Num 2]) \<in> set (persisted (execute arrival oneUnit)) \<and>
   state doorUnit = doors_opening \<and> isMoving doorUnit"
  by (simp add: arrival_unit(2) doorUnit_def)

text \<open>
  C1, amended: in every run from a fleet of idle units, whatever the order of calls,
  timers and configuration changes, every persisted row and every row of the fleet has
  \<open>isMoving\<close> true when its state is \<open>moving_up\<close> or \<open>moving_down\<close> and false when
  its state is \<open>idle\<close>. The three door-phase writes of an arrival keep the flag of the
  arriving row (true after a movement step); the write that ends the door cycle clears it.
\<close>

theorem flag_follows_motion_state:
  assumes "\<forall>r \<in> set rows. fresh cfg r"
  shows "(\<forall>p \<in> set (persisted (execute steps (initialSystem cfg rows))). flagFollowsState (fst p)) \<and>
         (\<forall>e \<in> set (elevators (execute steps (initialSystem cfg rows))). flagFollowsState e) \<and>
         map (\<lambda>p. (state (fst p), isMoving (fst p)))
             (drop (length (persisted s)) (persisted (snd (handleArrival arriving s))))
           = [(doors_opening, isMoving arriving), (doors_open, isMoving arriving),
              (doors_closing, isMoving arriving), (idle, False)]"
proof -
  have "flagsOK (execute steps (initialSystem cfg rows))"
    using assms by (intro flagsOK_execute flagsOK_initial)
  then have "\<forall>p \<in> set (persisted (execute steps (initialSystem cfg rows))). flagFollowsState (fst p)"
    and "\<forall>e \<in> set (elevators (execute steps (initialSystem cfg rows))). flagFollowsState e"
    by (simp_all add: flagsOK_def)
  moreover have "map (\<lambda>p. (state (fst p), isMoving (fst p)))
             (drop (length (persisted s)) (persisted (snd (handleArrival arriving s))))
           = [(doors_opening, isMoving arriving), (doors_open, isMoving arriving),
              (doors_closing, isMoving arriving), (idle, False)]"
    by (simp add: handleArrival_eq settled_def)
  ultimately show ?thesis by blast
qed

theorem flag_follows_motion_state_witness:
  "fresh cfgTest (idleUnit ''elevator-1'' 1) \<and>
   (arrivedUnit, [Num 2]) \<in> set (persisted (execute shortTrip oneUnit)) \<and>
   flagFollowsState arrivedUnit"
proof -
  have "\<forall>p \<in> set (persisted (execute shortTrip oneUnit)). flagFollowsState (fst p)"
    using flag_follows_motion_state[of "[idleUnit ''elevator-1'' 1]" cfgTest shortTrip]
    by (simp add: fresh_idleUnit oneUnit_def)
  moreover have m: "(arrivedUnit, [Num 2]) \<in> set (persisted (execute shortTrip oneUnit))"
    by (simp add: shortTrip_unit(2) afterMove_unit(2))
  ultimately have "flagFollowsState arrivedUnit" by force
  then show ?thesis using m by (simp add: fresh_idleUnit)
qed




section \<open>The boundary check\<close>




section \<open>The end of a journey\<close>

text \<open>
  C8: when an invocation of the engine finds a unit at its target floor with no stop
  behind the one being served, and goes on undisturbed through its three timer waits,
  it persists the door phases \<open>doors_opening\<close>, \<open>doors_open\<close>, \<open>doors_closing\<close> and
  then, as its last write, the row with state \<open>idle\<close>, \<open>targetFloor = 0\<close>, direction
  null and \<open>isMoving = false\<close>, which is the row of the unit afterwards; the last event
  logged is \<open>elevator_idle\<close>; the queue is empty, the timer handle is dropped and the
  invocation has ended without a successor.
\<close>

theorem journey_end_idle:
  assumes "k < length (chains s i)" "chains s i ! k = Due"
      "find (\<lambda>r. eid r = i) (elevators s) = Some r"
      "targetFloor r = Some (Num (currentFloor r))" "currentFloor r \<noteq> 0"
      "tl (queueOf s i) = []" "n = length (chains s i) - 1"
      "s' = execute [Tick i k, Tick i n, Tick i n, Tick i n] s"
  shows "find (\<lambda>r. eid r = i) (elevators s')
           = Some (r\<lparr>state := idle, targetFloor := Some (Num 0), direction := None,
                     isMoving := False\<rparr>) \<and>
         map fst (drop (length (persisted s)) (persisted s'))
           = [r\<lparr>state := doors_opening\<rparr>, r\<lparr>state := doors_open\<rparr>, r\<lparr>state := doors_closing\<rparr>,
              r\<lparr>state := idle, targetFloor := Some (Num 0), direction := None,
                isMoving := False\<rparr>] \<and>
         map event (drop (length (elevator_logs s)) (elevator_logs s'))
           = [''doors_opening'', ''doors_open'', ''doors_closing'', ''elevator_idle''] \<and>
         queueOf s' i = [] \<and>
         chains s' i = take k (chains s i) @ drop (Suc k) (chains s i) \<and>
         i \<notin> activeMovements s'"
proof -
  have n: "n = length (others s i k)" using assms(1,7) by (simp add: length_others)
  note eq = door_cycle_last[OF assms(1-6), folded n, folded assms(8)]
  have i: "eid r = i" using find_eid[OF assms(3)] by simp
  have "find (\<lambda>r. eid r = i) (elevators s') = Some (settled r)"
    unfolding eq using find_replaceRow[OF assms(3), of "settled r"] i by simp
  moreover have "map fst (drop (length (persisted s)) (persisted s'))
           = [r\<lparr>state := doors_opening\<rparr>, r\<lparr>state := doors_open\<rparr>, r\<lparr>state := doors_closing\<rparr>,
              settled r]"
    unfolding eq by simp
  moreover have "map event (drop (length (elevator_logs s)) (elevator_logs s'))
           = [''doors_opening'', ''doors_open'', ''doors_closing'', ''elevator_idle'']"
    unfolding eq by (simp add: doorLog_def)
  moreover have "queueOf s' i = []"
    unfolding eq using assms(6) by (simp add: queueOf_def split: option.splits)
  moreover have "chains s' i = take k (chains s i) @ drop (Suc k) (chains s i)"
    unfolding eq by (simp add: others_def)
  moreover have "i \<notin> activeMovements s'"
    unfolding eq by simp
  ultimately show ?thesis by (simp add: settled_def)
qed

theorem journey_end_idle_witness:
  "find (\<lambda>r. eid r = ''elevator-1'') (elevators afterMove) = Some arrivedUnit \<and>
   find (\<lambda>r. eid r = ''elevator-1'')
     (elevators (execute (replicate 4 (Tick ''elevator-1'' 0)) afterMove)) = Some servedUnit \<and>
   map event (drop (length (elevator_logs afterMove))
                (elevator_logs (execute (replicate 4 (Tick ''elevator-1'' 0)) afterMove)))
     = [''doors_opening'', ''doors_open'', ''doors_closing'', ''elevator_idle''] \<and>
   chains (execute (replicate 4 (Tick ''elevator-1'' 0)) afterMove) ''elevator-1'' = []"
proof -
  have u: "chains afterMove ''elevator-1'' = [Due]"
    "find (\<lambda>r. eid r = ''elevator-1'') (elevators afterMove) = Some arrivedUnit"
    "queueOf afterMove ''elevator-1'' = [Num 2]"
    using afterMove_unit(1) by (simp_all add: unitIs_def arrivedUnit_def)
  have four: "replicate 4 (Tick ''elevator-1'' 0)
      = [Tick ''elevator-1'' 0, Tick ''elevator-1'' 0, Tick ''elevator-1'' 0, Tick ''elevator-1'' 0]"
    by (simp add: numeral_eq_Suc)
  show ?thesis
    using journey_end_idle[of 0 afterMove "''elevator-1''" arrivedUnit 0
        "execute (replicate 4 (Tick ''elevator-1'' 0)) afterMove"] u
    unfolding four
    by (simp add: arrivedUnit_def servedUnit_def)
qed

section \<open>The stop queue\<close>




end
